theory Spec2Isabelle
  imports Main "HOL-Library.Word"
begin

unbundle bit_operations_syntax

section \<open>Data model of utptrace.py\<close>

type_synonym byte = "8 word"

text \<open>
  Modelled from the spec: the class \<open>SerialNumber\<close> of the module \<open>serial\<close>, which
  utptrace.py imports and which is not among the sources. A serial number of width 16 is a
  value in \<open>[0, 2^16)\<close>; equality is equality of the values, addition is modulo \<open>2^16\<close>
  (the addition of \<open>16 word\<close>), and \<open>a < b\<close> is the RFC 1982 rule the specification
  gives: \<open>a \<noteq> b\<close> and either \<open>a < b\<close> with \<open>b - a < 2^15\<close>, or \<open>a > b\<close> with
  \<open>a - b > 2^15\<close>, on the values. \<open>a > b\<close> is \<open>b < a\<close>.
\<close>

type_synonym serial = "16 word"

definition serial_lt :: "serial \<Rightarrow> serial \<Rightarrow> bool" where
  "serial_lt a b \<longleftrightarrow>
     a \<noteq> b \<and> ((unat a < unat b \<and> unat b - unat a < 2 ^ 15)
              \<or> (unat a > unat b \<and> unat a - unat b > 2 ^ 15))"

definition serial_gt :: "serial \<Rightarrow> serial \<Rightarrow> bool" where
  "serial_gt a b \<longleftrightarrow> serial_lt b a"

text \<open>The packet types \<open>ST_*\<close> (lines 14-18) and the connection states \<open>CS_*\<close> (lines 20-31).\<close>

datatype packet_type = ST_DATA | ST_FIN | ST_STATE | ST_RESET | ST_SYN

datatype conn_state =
    CS_INIT
  | CS_HANDSHAKE
  | CS_SYN_ACKED
  | CS_CONNECTED
  | CS_INITIATOR_SENT_FIN
  | CS_ACCEPTER_SENT_FIN
  | CS_INITIATOR_FIN_ACKED
  | CS_ACCEPTER_FIN_ACKED
  | CS_BOTH_SENT_FIN
  | CS_BOTH_SENT_FIN_INITIATOR_ACKED
  | CS_BOTH_SENT_FIN_ACCEPTER_ACKED
  | CS_PENDING_CLOSE

text \<open>
  The key of the flow table: \<open>(initiator_ip, initiator_port, accepter_ip, accepter_port,
  connid)\<close>. The connection id is a Python integer: the parser builds it from two bytes, and
  the lookup subtracts 1 from it with unbounded integer arithmetic.
\<close>

type_synonym flow_key = "string \<times> nat \<times> string \<times> nat \<times> int"

text \<open>Class \<open>UtpFlow\<close> (lines 33-47). An entry of \<open>pending\<close> is \<open>(payload, seq, direction)\<close>.\<close>

record UtpFlow =
  initiator_ip :: string
  initiator_port :: nat
  accepter_ip :: string
  accepter_port :: nat
  tup :: flow_key
  connid :: int
  seq0 :: serial
  seq1 :: serial
  state :: conn_state
  pending :: "(byte list \<times> serial \<times> nat) list"

definition UtpFlow_init :: "string \<Rightarrow> nat \<Rightarrow> string \<Rightarrow> nat \<Rightarrow> int \<Rightarrow> serial \<Rightarrow> UtpFlow" where
  "UtpFlow_init i_ip i_port a_ip a_port cid s0 =
     \<lparr> initiator_ip = i_ip, initiator_port = i_port,
       accepter_ip = a_ip, accepter_port = a_port,
       tup = (i_ip, i_port, a_ip, a_port, cid),
       connid = cid, seq0 = s0, seq1 = 0,
       state = CS_HANDSHAKE, pending = [] \<rparr>"

text \<open>\<open>flow.tup[:-1]\<close>: the key without its connection id.\<close>

definition tup4 :: "UtpFlow \<Rightarrow> string \<times> nat \<times> string \<times> nat" where
  "tup4 flow = (case tup flow of (a, b, c, d, e) \<Rightarrow> (a, b, c, d))"

text \<open>
  The callbacks of the sink and the writes to its files, in the order the tracer makes them.
  \<open>NewFlow\<close> and \<open>FlowClosed\<close> hold the flow object as it is at the call. \<open>NewSegment\<close>
  holds \<open>flow.tup\<close>, the direction and the payload the callback receives, and (not passed to
  the callback) the sequence number of the packet the payload came in. \<open>FileWrite\<close> is one
  \<open>open(fn, 'w' if first_time else 'a').write(buf)\<close>.
\<close>

datatype event =
    NewFlow UtpFlow
  | NewSegment flow_key nat "byte list" serial
  | FlowClosed UtpFlow
  | FileWrite "flow_key \<times> nat" bool "byte list"

text \<open>
  The tracer object (\<open>UtpTracer.__init__\<close>, lines 119-129, and \<open>MyUtpTracer.__init__\<close>,
  lines 464-472): the flow table, the sink's buffers and counters, and the log of events.
\<close>

record tracer =
  flows :: "flow_key \<rightharpoonup> UtpFlow"
  file_buffers :: "(flow_key \<times> nat) \<rightharpoonup> (byte list \<times> bool)"
  added :: nat
  closed :: nat
  segments :: nat
  data :: nat
  events :: "event list"

definition tracer_init :: tracer where
  "tracer_init = \<lparr> flows = Map.empty, file_buffers = Map.empty,
                    added = 0, closed = 0, segments = 0, data = 0, events = [] \<rparr>"

text \<open>One captured UDP datagram: \<open>pkt[1].src\<close>, \<open>pkt[2].sport\<close>, \<open>pkt[1].dst\<close>,
  \<open>pkt[2].dport\<close> and \<open>str(pkt[3])\<close>.\<close>

record packet =
  ip_src :: string
  udp_sport :: nat
  ip_dst :: string
  udp_dport :: nat
  udp_payload :: "byte list"

datatype error = IndexError | AssertionError | AttributeError

section \<open>The sink: \<open>MyUtpTracer\<close>\<close>

definition new_flow :: "tracer \<Rightarrow> UtpFlow \<Rightarrow> tracer" where
  "new_flow self flow = self\<lparr> added := added self + 1, events := events self @ [NewFlow flow] \<rparr>"

definition flow_closed :: "tracer \<Rightarrow> UtpFlow \<Rightarrow> tracer" where
  "flow_closed self flow =
     self\<lparr> closed := closed self + 1, events := events self @ [FlowClosed flow] \<rparr>"

text \<open>
  \<open>get_filename\<close> (lines 478-495) names the file of a stream after \<open>flow.tup\<close> and the
  direction, with a numeric suffix chosen by probing the file system. The file system is
  outside the tracer; the file of a stream is identified here by the pair the name is cached
  under, \<open>(flow.tup, direction)\<close>.
\<close>

definition get_filename :: "UtpFlow \<Rightarrow> nat \<Rightarrow> flow_key \<times> nat" where
  "get_filename flow direction = (tup flow, direction)"

definition new_segment :: "tracer \<Rightarrow> UtpFlow \<Rightarrow> nat \<Rightarrow> byte list \<Rightarrow> serial \<Rightarrow> tracer" where
  "new_segment self flow direction segment seq =
     (let self1 = self\<lparr> segments := segments self + 1,
                        data := data self + length segment,
                        events := events self @ [NewSegment (tup flow) direction segment seq] \<rparr>;
          filename = get_filename flow direction;
          entry = (case file_buffers self1 filename of
                     Some (buf, first_time) \<Rightarrow> (buf @ segment, first_time)
                   | None \<Rightarrow> (segment, True))
      in if length (fst entry) > 2 ^ 15
         then self1\<lparr> file_buffers := (file_buffers self1)(filename \<mapsto> ([], False)),
                     events := events self1 @ [FileWrite filename (snd entry) (fst entry)] \<rparr>
         else self1\<lparr> file_buffers := (file_buffers self1)(filename \<mapsto> entry) \<rparr>)"

definition flush_buffer :: "tracer \<Rightarrow> UtpFlow \<Rightarrow> nat \<Rightarrow> tracer" where
  "flush_buffer self flow d =
     (let fn = get_filename flow d
      in case file_buffers self fn of
           None \<Rightarrow> self
         | Some (buf, first_time) \<Rightarrow>
             self\<lparr> file_buffers := (file_buffers self)(fn := None),
                   events := events self @ [FileWrite fn first_time buf] \<rparr>)"

definition flush_and_close :: "tracer \<Rightarrow> UtpFlow \<Rightarrow> tracer" where
  "flush_and_close self flow =
     (let self1 = flush_buffer (flush_buffer self flow 0) flow 1;
          self2 = flow_closed self1 flow
      in self2\<lparr> flows := (flows self2)(tup flow := None) \<rparr>)"

section \<open>The reassembler: \<open>UtpTracer.add_segment\<close>\<close>

text \<open>One pass of the \<open>for\<close> loop of lines 415-430 over \<open>flow.pending\<close>.\<close>

fun scan :: "(byte list \<times> serial \<times> nat) list \<Rightarrow> tracer \<Rightarrow> UtpFlow \<Rightarrow> bool \<Rightarrow> (serial \<times> nat) list
               \<Rightarrow> tracer \<times> UtpFlow \<times> bool \<times> (serial \<times> nat) list" where
  "scan [] self flow added_some removed = (self, flow, added_some, removed)"
| "scan ((payload, seq, direction) # rest) self flow added_some removed =
     (if direction = 0 then
        (if seq = seq0 flow
         then scan rest (new_segment self flow direction payload seq)
                (flow\<lparr> seq0 := seq0 flow + 1 \<rparr>) True (removed @ [(seq, direction)])
         else scan rest self flow added_some removed)
      else
        (if seq = seq1 flow
         then scan rest (new_segment self flow direction payload seq)
                (flow\<lparr> seq1 := seq1 flow + 1 \<rparr>) True (removed @ [(seq, direction)])
         else scan rest self flow added_some removed))"

text \<open>The \<open>while added_some\<close> loop of lines 412-430. It need not end: \<open>None\<close> is a loop
  that runs forever.\<close>

partial_function (option) drain ::
  "tracer \<Rightarrow> UtpFlow \<Rightarrow> (serial \<times> nat) list \<Rightarrow> (tracer \<times> UtpFlow \<times> (serial \<times> nat) list) option"
where
  "drain self flow removed =
     (case scan (pending flow) self flow False removed of
        (self', flow', added_some, removed') \<Rightarrow>
          if added_some then drain self' flow' removed' else Some (self', flow', removed'))"

definition add_segment ::
  "tracer \<Rightarrow> UtpFlow \<Rightarrow> nat \<Rightarrow> byte list \<Rightarrow> serial \<Rightarrow> (tracer \<times> UtpFlow) option" where
  "add_segment self flow direction payload seq =
     (let fseq = (if direction = 0 then seq0 flow else seq1 flow);
          (self1, flow1) =
            (if seq = fseq then
               (new_segment self flow direction payload seq,
                if direction = 0 then flow\<lparr> seq0 := seq0 flow + 1 \<rparr>
                else flow\<lparr> seq1 := seq1 flow + 1 \<rparr>)
             else if serial_gt seq fseq then
               (self, flow\<lparr> pending := pending flow @ [(payload, seq, direction)] \<rparr>)
             else (self, flow))
      in case drain self1 flow1 [] of
           None \<Rightarrow> None
         | Some (self2, flow2, removed) \<Rightarrow>
             Some (self2,
                   flow2\<lparr> pending := filter (\<lambda>i. (fst (snd i), snd (snd i)) \<notin> set removed)
                                         (pending flow2) \<rparr>))"

section \<open>The state machine: the handlers registered by the decorators\<close>

text \<open>
  The handlers receive the flow object the lookup found. The flow is an object shared with
  the flow table, mutated in place; the model passes its value along with the key \<open>kf\<close> it
  is stored under, and stores the mutated value back under that key.
\<close>

definition put :: "tracer \<Rightarrow> flow_key \<Rightarrow> UtpFlow \<Rightarrow> tracer" where
  "put self kf flow = self\<lparr> flows := (flows self)(kf \<mapsto> flow) \<rparr>"

text \<open>Lines 131-138: \<open>(CS_INIT, ST_SYN, False)\<close>.\<close>

definition action_init_syn ::
  "tracer \<Rightarrow> string \<Rightarrow> nat \<Rightarrow> string \<Rightarrow> nat \<Rightarrow> int \<Rightarrow> serial \<Rightarrow> (error + tracer) option" where
  "action_init_syn self src sport dst dport cid seq =
     (let flow = UtpFlow_init src sport dst dport cid (seq + 1)
      in if flows self (tup flow) \<noteq> None then Some (Inl AssertionError)
         else Some (Inr (new_flow (self\<lparr> flows := (flows self)((src, sport, dst, dport, cid) \<mapsto> flow) \<rparr>)
                           flow)))"

text \<open>Lines 140-150: \<open>(CS_HANDSHAKE, ST_STATE, True)\<close>.\<close>

definition action_handshake_state ::
  "tracer \<Rightarrow> flow_key \<Rightarrow> UtpFlow \<Rightarrow> string \<Rightarrow> nat \<Rightarrow> string \<Rightarrow> nat \<Rightarrow> serial
     \<Rightarrow> (error + tracer) option" where
  "action_handshake_state self kf flow src sport dst dport seq =
     (if (src, sport, dst, dport) = tup4 flow then Some (Inr self)
      else Some (Inr (put self kf (flow\<lparr> seq1 := seq, state := CS_SYN_ACKED \<rparr>))))"

text \<open>Lines 152-167: \<open>(CS_HANDSHAKE, ST_SYN, True)\<close>.\<close>

definition action_handshake_syn ::
  "tracer \<Rightarrow> flow_key \<Rightarrow> UtpFlow \<Rightarrow> string \<Rightarrow> nat \<Rightarrow> string \<Rightarrow> nat \<Rightarrow> int \<Rightarrow> serial
     \<Rightarrow> (error + tracer) option" where
  "action_handshake_syn self kf flow src sport dst dport cid seq =
     (if (src, sport, dst, dport) = tup4 flow then Some (Inr self)
      else
        (let self1 = flush_and_close self flow;
             flow' = UtpFlow_init src sport dst dport cid (seq + 1)
         in Some (Inr (new_flow (self1\<lparr> flows := (flows self1)((src, sport, dst, dport, cid) \<mapsto> flow') \<rparr>)
                         flow'))))"

text \<open>Lines 169-178: \<open>(CS_SYN_ACKED, ST_FIN, True)\<close>.\<close>

definition action_syn_acked_fin ::
  "tracer \<Rightarrow> flow_key \<Rightarrow> UtpFlow \<Rightarrow> string \<Rightarrow> nat \<Rightarrow> string \<Rightarrow> nat \<Rightarrow> (error + tracer) option" where
  "action_syn_acked_fin self kf flow src sport dst dport =
     (if (src, sport, dst, dport) = tup4 flow
      then Some (Inr (put self kf (flow\<lparr> state := CS_INITIATOR_SENT_FIN \<rparr>)))
      else if (dst, dport, src, sport) = tup4 flow
      then Some (Inr (put self kf (flow\<lparr> state := CS_ACCEPTER_SENT_FIN \<rparr>)))
      else Some (Inr self))"

text \<open>Lines 180-191: \<open>(CS_SYN_ACKED, ST_DATA, True)\<close> and \<open>(CS_CONNECTED, ST_DATA, True)\<close>.\<close>

definition action_data ::
  "tracer \<Rightarrow> flow_key \<Rightarrow> UtpFlow \<Rightarrow> byte list \<Rightarrow> string \<Rightarrow> nat \<Rightarrow> string \<Rightarrow> nat \<Rightarrow> serial
     \<Rightarrow> (error + tracer) option" where
  "action_data self kf flow payload src sport dst dport seq =
     (if (src, sport, dst, dport) = tup4 flow then
        (case add_segment self flow 0 payload seq of
           None \<Rightarrow> None
         | Some (self', flow') \<Rightarrow> Some (Inr (put self' kf (flow'\<lparr> state := CS_CONNECTED \<rparr>))))
      else if (dst, dport, src, sport) = tup4 flow then
        (case add_segment self flow 1 payload seq of
           None \<Rightarrow> None
         | Some (self', flow') \<Rightarrow> Some (Inr (put self' kf (flow'\<lparr> state := CS_CONNECTED \<rparr>))))
      else Some (Inr self))"

text \<open>Lines 193-197: \<open>(CS_CONNECTED, ST_STATE, True)\<close>.\<close>

definition action_connected_state :: "tracer \<Rightarrow> (error + tracer) option" where
  "action_connected_state self = Some (Inr self)"

text \<open>Lines 199-204: \<open>(CS_CONNECTED, ST_RESET, True)\<close>.\<close>

definition action_connected_reset :: "tracer \<Rightarrow> UtpFlow \<Rightarrow> (error + tracer) option" where
  "action_connected_reset self flow = Some (Inr (flush_and_close self flow))"

text \<open>Lines 206-215: \<open>(CS_CONNECTED, ST_FIN, True)\<close>.\<close>

definition action_connected_fin ::
  "tracer \<Rightarrow> flow_key \<Rightarrow> UtpFlow \<Rightarrow> string \<Rightarrow> nat \<Rightarrow> string \<Rightarrow> nat \<Rightarrow> (error + tracer) option" where
  "action_connected_fin self kf flow src sport dst dport =
     (if (src, sport, dst, dport) = tup4 flow
      then Some (Inr (put self kf (flow\<lparr> state := CS_INITIATOR_SENT_FIN \<rparr>)))
      else Some (Inr (put self kf (flow\<lparr> state := CS_ACCEPTER_SENT_FIN \<rparr>))))"

text \<open>Lines 217-222: \<open>(CS_INITIATOR_SENT_FIN, ST_STATE, True)\<close>.\<close>

definition action_initiator_sent_fin_state ::
  "tracer \<Rightarrow> flow_key \<Rightarrow> UtpFlow \<Rightarrow> (error + tracer) option" where
  "action_initiator_sent_fin_state self kf flow =
     Some (Inr (put self kf (flow\<lparr> state := CS_INITIATOR_FIN_ACKED \<rparr>)))"

text \<open>Lines 224-230: \<open>(CS_ACCEPTER_SENT_FIN, ST_STATE, True)\<close>.\<close>

definition action_accepter_sent_fin_state ::
  "tracer \<Rightarrow> flow_key \<Rightarrow> UtpFlow \<Rightarrow> string \<Rightarrow> nat \<Rightarrow> string \<Rightarrow> nat \<Rightarrow> (error + tracer) option" where
  "action_accepter_sent_fin_state self kf flow src sport dst dport =
     (if (dst, dport, src, sport) = tup4 flow
      then Some (Inr (put self kf (flow\<lparr> state := CS_ACCEPTER_FIN_ACKED \<rparr>)))
      else Some (Inr self))"

text \<open>Lines 232-237: \<open>(CS_INITIATOR_FIN_ACKED, ST_FIN, True)\<close>.\<close>

definition action_initiator_fin_acked_fin ::
  "tracer \<Rightarrow> flow_key \<Rightarrow> UtpFlow \<Rightarrow> string \<Rightarrow> nat \<Rightarrow> string \<Rightarrow> nat \<Rightarrow> (error + tracer) option" where
  "action_initiator_fin_acked_fin self kf flow src sport dst dport =
     (if (src, sport, dst, dport) = tup4 flow
      then Some (Inr (put self kf (flow\<lparr> state := CS_BOTH_SENT_FIN_INITIATOR_ACKED \<rparr>)))
      else Some (Inr self))"

text \<open>Lines 239-244: \<open>(CS_ACCEPTER_FIN_ACKED, ST_FIN, True)\<close>.\<close>

definition action_accepter_fin_acked_fin ::
  "tracer \<Rightarrow> flow_key \<Rightarrow> UtpFlow \<Rightarrow> string \<Rightarrow> nat \<Rightarrow> string \<Rightarrow> nat \<Rightarrow> (error + tracer) option" where
  "action_accepter_fin_acked_fin self kf flow src sport dst dport =
     (if (src, sport, dst, dport) = tup4 flow
      then Some (Inr (put self kf (flow\<lparr> state := CS_BOTH_SENT_FIN_ACCEPTER_ACKED \<rparr>)))
      else Some (Inr self))"

text \<open>Lines 246-256: \<open>(CS_BOTH_SENT_FIN_INITIATOR_ACKED, ST_STATE, True)\<close>.\<close>

definition action_both_initiator_acked_state ::
  "tracer \<Rightarrow> flow_key \<Rightarrow> UtpFlow \<Rightarrow> string \<Rightarrow> nat \<Rightarrow> string \<Rightarrow> nat \<Rightarrow> (error + tracer) option" where
  "action_both_initiator_acked_state self kf flow src sport dst dport =
     (if (dst, dport, src, sport) \<noteq> tup4 flow then Some (Inr self)
      else if length (pending flow) > 0
      then Some (Inr (put self kf (flow\<lparr> state := CS_PENDING_CLOSE \<rparr>)))
      else Some (Inr (flush_and_close self flow)))"

text \<open>Lines 258-263: \<open>(CS_INITIATOR_SENT_FIN, ST_FIN, True)\<close>.\<close>

definition action_initiator_sent_fin_fin ::
  "tracer \<Rightarrow> flow_key \<Rightarrow> UtpFlow \<Rightarrow> string \<Rightarrow> nat \<Rightarrow> string \<Rightarrow> nat \<Rightarrow> (error + tracer) option" where
  "action_initiator_sent_fin_fin self kf flow src sport dst dport =
     (if (dst, dport, src, sport) = tup4 flow
      then Some (Inr (put self kf (flow\<lparr> state := CS_BOTH_SENT_FIN \<rparr>)))
      else Some (Inr self))"

text \<open>Lines 265-270: \<open>(CS_ACCEPTER_SENT_FIN, ST_FIN, True)\<close>.\<close>

definition action_accepter_sent_fin_fin ::
  "tracer \<Rightarrow> flow_key \<Rightarrow> UtpFlow \<Rightarrow> string \<Rightarrow> nat \<Rightarrow> string \<Rightarrow> nat \<Rightarrow> (error + tracer) option" where
  "action_accepter_sent_fin_fin self kf flow src sport dst dport =
     (if (src, sport, dst, dport) = tup4 flow
      then Some (Inr (put self kf (flow\<lparr> state := CS_BOTH_SENT_FIN \<rparr>)))
      else Some (Inr self))"

text \<open>Lines 272-279: \<open>(CS_BOTH_SENT_FIN, ST_STATE, True)\<close>.\<close>

definition action_both_sent_fin_state ::
  "tracer \<Rightarrow> flow_key \<Rightarrow> UtpFlow \<Rightarrow> string \<Rightarrow> nat \<Rightarrow> string \<Rightarrow> nat \<Rightarrow> (error + tracer) option" where
  "action_both_sent_fin_state self kf flow src sport dst dport =
     (if (src, sport, dst, dport) = tup4 flow
      then Some (Inr (put self kf (flow\<lparr> state := CS_BOTH_SENT_FIN_INITIATOR_ACKED \<rparr>)))
      else Some (Inr (put self kf (flow\<lparr> state := CS_BOTH_SENT_FIN_ACCEPTER_ACKED \<rparr>))))"

text \<open>Lines 281-291: \<open>(CS_BOTH_SENT_FIN_ACCEPTER_ACKED, ST_STATE, True)\<close>.\<close>

definition action_both_accepter_acked_state ::
  "tracer \<Rightarrow> flow_key \<Rightarrow> UtpFlow \<Rightarrow> string \<Rightarrow> nat \<Rightarrow> string \<Rightarrow> nat \<Rightarrow> (error + tracer) option" where
  "action_both_accepter_acked_state self kf flow src sport dst dport =
     (if (src, sport, dst, dport) \<noteq> tup4 flow then Some (Inr self)
      else if length (pending flow) > 0
      then Some (Inr (put self kf (flow\<lparr> state := CS_PENDING_CLOSE \<rparr>)))
      else Some (Inr (flush_and_close self flow)))"

text \<open>Lines 293-302: \<open>(CS_PENDING_CLOSE, ST_DATA, True)\<close>.\<close>

definition action_pending_close_data ::
  "tracer \<Rightarrow> flow_key \<Rightarrow> UtpFlow \<Rightarrow> byte list \<Rightarrow> string \<Rightarrow> nat \<Rightarrow> string \<Rightarrow> nat \<Rightarrow> serial
     \<Rightarrow> (error + tracer) option" where
  "action_pending_close_data self kf flow payload src sport dst dport seq =
     (case add_segment self flow (if (src, sport, dst, dport) = tup4 flow then 0 else 1) payload seq of
        None \<Rightarrow> None
      | Some (self', flow') \<Rightarrow>
          (let self1 = put self' kf flow'
           in if length (pending flow') = 0 then Some (Inr (flush_and_close self1 flow'))
              else Some (Inr self1)))"

text \<open>Lines 304-317: \<open>ST_DATA\<close> on an existing flow in one of the seven states from
  \<open>CS_INITIATOR_SENT_FIN\<close> to \<open>CS_BOTH_SENT_FIN_ACCEPTER_ACKED\<close>.\<close>

definition action_fin_data ::
  "tracer \<Rightarrow> flow_key \<Rightarrow> UtpFlow \<Rightarrow> byte list \<Rightarrow> string \<Rightarrow> nat \<Rightarrow> string \<Rightarrow> nat \<Rightarrow> serial
     \<Rightarrow> (error + tracer) option" where
  "action_fin_data self kf flow payload src sport dst dport seq =
     (case add_segment self flow (if (src, sport, dst, dport) = tup4 flow then 0 else 1) payload seq of
        None \<Rightarrow> None
      | Some (self', flow') \<Rightarrow> Some (Inr (put self' kf flow')))"

text \<open>Lines 319-331: \<open>ST_SYN\<close> on an existing flow in one of the same seven states.\<close>

definition action_fin_syn ::
  "tracer \<Rightarrow> UtpFlow \<Rightarrow> string \<Rightarrow> nat \<Rightarrow> string \<Rightarrow> nat \<Rightarrow> int \<Rightarrow> serial \<Rightarrow> (error + tracer) option" where
  "action_fin_syn self flow src sport dst dport cid seq =
     action_init_syn (flush_and_close self flow) src sport dst dport cid seq"

text \<open>
  The registry \<open>state_machine\<close> as the decorators of lines 131-327 fill it: a stack of
  \<open>on_state\<close>, \<open>on_packet_type\<close> and \<open>on_existing_flow\<close> registers its function under every
  combination of the states, packet types and flags it names. No key is registered twice.
\<close>

datatype action =
    Act_init_syn
  | Act_handshake_state
  | Act_handshake_syn
  | Act_syn_acked_fin
  | Act_data
  | Act_connected_state
  | Act_connected_reset
  | Act_connected_fin
  | Act_initiator_sent_fin_state
  | Act_accepter_sent_fin_state
  | Act_initiator_fin_acked_fin
  | Act_accepter_fin_acked_fin
  | Act_both_initiator_acked_state
  | Act_initiator_sent_fin_fin
  | Act_accepter_sent_fin_fin
  | Act_both_sent_fin_state
  | Act_both_accepter_acked_state
  | Act_pending_close_data
  | Act_fin_data
  | Act_fin_syn

definition fin_states :: "conn_state list" where
  "fin_states = [CS_INITIATOR_SENT_FIN, CS_ACCEPTER_SENT_FIN, CS_INITIATOR_FIN_ACKED,
                 CS_ACCEPTER_FIN_ACKED, CS_BOTH_SENT_FIN, CS_BOTH_SENT_FIN_INITIATOR_ACKED,
                 CS_BOTH_SENT_FIN_ACCEPTER_ACKED]"

definition state_machine :: "conn_state \<times> packet_type \<times> bool \<Rightarrow> action option" where
  "state_machine k =
     (if k = (CS_INIT, ST_SYN, False) then Some Act_init_syn
      else if k = (CS_HANDSHAKE, ST_STATE, True) then Some Act_handshake_state
      else if k = (CS_HANDSHAKE, ST_SYN, True) then Some Act_handshake_syn
      else if k = (CS_SYN_ACKED, ST_FIN, True) then Some Act_syn_acked_fin
      else if k = (CS_SYN_ACKED, ST_DATA, True) \<or> k = (CS_CONNECTED, ST_DATA, True) then Some Act_data
      else if k = (CS_CONNECTED, ST_STATE, True) then Some Act_connected_state
      else if k = (CS_CONNECTED, ST_RESET, True) then Some Act_connected_reset
      else if k = (CS_CONNECTED, ST_FIN, True) then Some Act_connected_fin
      else if k = (CS_INITIATOR_SENT_FIN, ST_STATE, True) then Some Act_initiator_sent_fin_state
      else if k = (CS_ACCEPTER_SENT_FIN, ST_STATE, True) then Some Act_accepter_sent_fin_state
      else if k = (CS_INITIATOR_FIN_ACKED, ST_FIN, True) then Some Act_initiator_fin_acked_fin
      else if k = (CS_ACCEPTER_FIN_ACKED, ST_FIN, True) then Some Act_accepter_fin_acked_fin
      else if k = (CS_BOTH_SENT_FIN_INITIATOR_ACKED, ST_STATE, True)
        then Some Act_both_initiator_acked_state
      else if k = (CS_INITIATOR_SENT_FIN, ST_FIN, True) then Some Act_initiator_sent_fin_fin
      else if k = (CS_ACCEPTER_SENT_FIN, ST_FIN, True) then Some Act_accepter_sent_fin_fin
      else if k = (CS_BOTH_SENT_FIN, ST_STATE, True) then Some Act_both_sent_fin_state
      else if k = (CS_BOTH_SENT_FIN_ACCEPTER_ACKED, ST_STATE, True)
        then Some Act_both_accepter_acked_state
      else if k = (CS_PENDING_CLOSE, ST_DATA, True) then Some Act_pending_close_data
      else if fst k \<in> set fin_states \<and> snd k = (ST_DATA, True) then Some Act_fin_data
      else if fst k \<in> set fin_states \<and> snd k = (ST_SYN, True) then Some Act_fin_syn
      else None)"

text \<open>
  \<open>Action.__call__\<close>: the call \<open>action(self, flow, payload, src, sport, dst, dport, connid,
  seq)\<close>. \<open>fl\<close> is the flow the lookup found with its key, or \<open>None\<close>; every handler but
  the first reads \<open>flow.tup\<close> or writes an attribute of the flow, which on \<open>None\<close> raises.
\<close>

definition call_action ::
  "action \<Rightarrow> tracer \<Rightarrow> (flow_key \<times> UtpFlow) option \<Rightarrow> byte list \<Rightarrow> string \<Rightarrow> nat \<Rightarrow> string \<Rightarrow> nat
     \<Rightarrow> int \<Rightarrow> serial \<Rightarrow> (error + tracer) option" where
  "call_action a self fl payload src sport dst dport cid seq =
     (case fl of
        None \<Rightarrow>
          (case a of
             Act_init_syn \<Rightarrow> action_init_syn self src sport dst dport cid seq
           | Act_connected_state \<Rightarrow> action_connected_state self
           | _ \<Rightarrow> Some (Inl AttributeError))
      | Some (kf, flow) \<Rightarrow>
          (case a of
             Act_init_syn \<Rightarrow> action_init_syn self src sport dst dport cid seq
           | Act_handshake_state \<Rightarrow> action_handshake_state self kf flow src sport dst dport seq
           | Act_handshake_syn \<Rightarrow> action_handshake_syn self kf flow src sport dst dport cid seq
           | Act_syn_acked_fin \<Rightarrow> action_syn_acked_fin self kf flow src sport dst dport
           | Act_data \<Rightarrow> action_data self kf flow payload src sport dst dport seq
           | Act_connected_state \<Rightarrow> action_connected_state self
           | Act_connected_reset \<Rightarrow> action_connected_reset self flow
           | Act_connected_fin \<Rightarrow> action_connected_fin self kf flow src sport dst dport
           | Act_initiator_sent_fin_state \<Rightarrow> action_initiator_sent_fin_state self kf flow
           | Act_accepter_sent_fin_state \<Rightarrow>
               action_accepter_sent_fin_state self kf flow src sport dst dport
           | Act_initiator_fin_acked_fin \<Rightarrow>
               action_initiator_fin_acked_fin self kf flow src sport dst dport
           | Act_accepter_fin_acked_fin \<Rightarrow>
               action_accepter_fin_acked_fin self kf flow src sport dst dport
           | Act_both_initiator_acked_state \<Rightarrow>
               action_both_initiator_acked_state self kf flow src sport dst dport
           | Act_initiator_sent_fin_fin \<Rightarrow>
               action_initiator_sent_fin_fin self kf flow src sport dst dport
           | Act_accepter_sent_fin_fin \<Rightarrow>
               action_accepter_sent_fin_fin self kf flow src sport dst dport
           | Act_both_sent_fin_state \<Rightarrow> action_both_sent_fin_state self kf flow src sport dst dport
           | Act_both_accepter_acked_state \<Rightarrow>
               action_both_accepter_acked_state self kf flow src sport dst dport
           | Act_pending_close_data \<Rightarrow>
               action_pending_close_data self kf flow payload src sport dst dport seq
           | Act_fin_data \<Rightarrow> action_fin_data self kf flow payload src sport dst dport seq
           | Act_fin_syn \<Rightarrow> action_fin_syn self flow src sport dst dport cid seq))"

section \<open>\<open>UtpTracer.trace\<close>\<close>

text \<open>
  The extension loop of lines 353-361. \<open>Inr None\<close> is the \<open>return\<close> of line 358 (not a uTP
  packet); \<open>Inl IndexError\<close> is a read of \<open>payload[20 + ext_len + 1]\<close> past the end of the
  payload (the read of \<open>payload[20 + ext_len]\<close> is within it after the test of line 356).
\<close>

function ext_loop :: "byte list \<Rightarrow> nat \<Rightarrow> nat \<Rightarrow> error + nat option" where
  "ext_loop payload extension ext_len =
     (if extension \<noteq> 0 then
        (if length payload < 20 + ext_len + 1 then Inr None
         else if length payload \<le> 20 + ext_len + 1 then Inl IndexError
         else ext_loop payload (unat (payload ! (20 + ext_len)))
                (ext_len + (2 + unat (payload ! (20 + ext_len + 1)))))
      else Inr (Some ext_len))"
  by pat_completeness auto
termination
  by (relation "measure (\<lambda>(payload, extension, ext_len). length payload - ext_len)") auto

definition packet_type_of :: "nat \<Rightarrow> packet_type" where
  "packet_type_of n =
     (if n = 0 then ST_DATA else if n = 1 then ST_FIN else if n = 2 then ST_STATE
      else if n = 3 then ST_RESET else ST_SYN)"

text \<open>
  Lines 338-373 and the slice of line 386: the header of a payload. \<open>Inr None\<close> is a payload
  that is not a uTP packet; \<open>Inr (Some (type, connid, seq, body))\<close> is a parsed packet.
\<close>

definition parse_header :: "byte list \<Rightarrow> error + (packet_type \<times> int \<times> serial \<times> byte list) option" where
  "parse_header payload =
     (if length payload < 20 then Inr None
      else if unat (payload ! 0 AND 0x0f) \<noteq> 1 then Inr None
      else if unat (drop_bit 4 (payload ! 0 AND 0xf0)) > 4 then Inr None
      else
        (case ext_loop payload (unat (payload ! 1)) 0 of
           Inl e \<Rightarrow> Inl e
         | Inr None \<Rightarrow> Inr None
         | Inr (Some ext_len) \<Rightarrow>
             Inr (Some (packet_type_of (unat (drop_bit 4 (payload ! 0 AND 0xf0))),
                        push_bit 8 (uint (payload ! 2)) OR uint (payload ! 3),
                        word_of_int (push_bit 8 (uint (payload ! 16)) OR uint (payload ! 17)),
                        drop (20 + ext_len) payload))))"

text \<open>
  Lines 375-377: the two lookups. The result holds the key the flow was found under. The
  key of the first lookup is \<open>connid\<close> for a SYN and \<open>connid - 1\<close>, a subtraction of Python
  integers, for every other type.
\<close>

definition lookup ::
  "(flow_key \<rightharpoonup> UtpFlow) \<Rightarrow> string \<Rightarrow> nat \<Rightarrow> string \<Rightarrow> nat \<Rightarrow> packet_type \<Rightarrow> int
     \<Rightarrow> (flow_key \<times> UtpFlow) option" where
  "lookup fls src sport dst dport ptype cid =
     (let k1 = (src, sport, dst, dport, if ptype = ST_SYN then cid else cid - 1)
      in case fls k1 of
           Some flow \<Rightarrow> Some (k1, flow)
         | None \<Rightarrow>
             (let k2 = (dst, dport, src, sport, cid)
              in case fls k2 of Some flow \<Rightarrow> Some (k2, flow) | None \<Rightarrow> None))"

text \<open>Lines 379-390: the dispatch on \<open>(state, type, existing)\<close>.\<close>

definition dispatch ::
  "tracer \<Rightarrow> string \<Rightarrow> nat \<Rightarrow> string \<Rightarrow> nat \<Rightarrow> packet_type \<Rightarrow> int \<Rightarrow> serial \<Rightarrow> byte list
     \<Rightarrow> (error + tracer) option" where
  "dispatch self src sport dst dport ptype cid seq body =
     (let fl = lookup (flows self) src sport dst dport ptype cid;
          k = (case fl of Some (kf, flow) \<Rightarrow> (state flow, ptype, True)
                        | None \<Rightarrow> (CS_INIT, ptype, False))
      in case state_machine k of
           Some a \<Rightarrow> call_action a self fl body src sport dst dport cid seq
         | None \<Rightarrow> Some (Inr self))"

text \<open>
  \<open>trace\<close> (lines 333-390). \<open>None\<close>: the call does not return; \<open>Some (Inl e)\<close>: it raises
  \<open>e\<close>; \<open>Some (Inr self')\<close>: it returns, and the tracer is \<open>self'\<close>.
\<close>

definition trace :: "tracer \<Rightarrow> packet \<Rightarrow> (error + tracer) option" where
  "trace self pkt =
     (case parse_header (udp_payload pkt) of
        Inl e \<Rightarrow> Some (Inl e)
      | Inr None \<Rightarrow> Some (Inr self)
      | Inr (Some (ptype, cid, seq, body)) \<Rightarrow>
          dispatch self (ip_src pkt) (udp_sport pkt) (ip_dst pkt) (udp_dport pkt) ptype cid seq body)"

text \<open>
  The loop of \<open>trace_pcap\<close> (lines 438-461) over datagrams that are not fragmented: one call
  of \<open>trace\<close> per datagram, in capture order. No exception is caught: the first one ends the
  run. \<open>Some (Inr self')\<close>: every datagram was processed, and the tracer is \<open>self'\<close>.
\<close>

fun trace_all :: "tracer \<Rightarrow> packet list \<Rightarrow> (error + tracer) option" where
  "trace_all self [] = Some (Inr self)"
| "trace_all self (pkt # pkts) =
     (case trace self pkt of
        None \<Rightarrow> None
      | Some (Inl e) \<Rightarrow> Some (Inl e)
      | Some (Inr self') \<Rightarrow> trace_all self' pkts)"

section \<open>Notions the statements use\<close>

text \<open>The sequence number a flow expects next in a direction (line 393).\<close>

definition fseq :: "UtpFlow \<Rightarrow> nat \<Rightarrow> serial" where
  "fseq flow direction = (if direction = 0 then seq0 flow else seq1 flow)"

text \<open>The \<open>n\<close> consecutive serial numbers from \<open>s\<close>, modulo \<open>2^16\<close>.\<close>

definition series :: "serial \<Rightarrow> nat \<Rightarrow> serial list" where
  "series s n = map (\<lambda>i. s + of_nat i) [0..<n]"

text \<open>The sequence numbers of the packets whose payloads a list of events passes to
  \<open>new_segment\<close> for the flow with key \<open>t\<close> and the direction \<open>d\<close>, in order.\<close>

definition delivered :: "flow_key \<Rightarrow> nat \<Rightarrow> event list \<Rightarrow> serial list" where
  "delivered t d evs =
     concat (map (\<lambda>e. case e of NewSegment t' d' p s \<Rightarrow> if t' = t \<and> d' = d then [s] else []
                              | _ \<Rightarrow> []) evs)"

text \<open>The number of \<open>new_flow\<close> calls for flows with the key \<open>t\<close>, and the numbers of
  \<open>new_flow\<close> and \<open>flow_closed\<close> calls, in a list of events.\<close>

definition new_flows :: "flow_key \<Rightarrow> event list \<Rightarrow> nat" where
  "new_flows t evs = length (filter (\<lambda>e. case e of NewFlow f \<Rightarrow> tup f = t | _ \<Rightarrow> False) evs)"

definition count_new_flow :: "event list \<Rightarrow> nat" where
  "count_new_flow evs = length (filter (\<lambda>e. case e of NewFlow f \<Rightarrow> True | _ \<Rightarrow> False) evs)"

definition count_flow_closed :: "event list \<Rightarrow> nat" where
  "count_flow_closed evs = length (filter (\<lambda>e. case e of FlowClosed f \<Rightarrow> True | _ \<Rightarrow> False) evs)"

text \<open>Events of the reassembler for the flow with key \<open>t\<close>: segments of that flow in the
  directions 0 and 1, and writes to files.\<close>

definition is_sink_event :: "flow_key \<Rightarrow> event \<Rightarrow> bool" where
  "is_sink_event t e =
     (case e of NewSegment t' d p s \<Rightarrow> t' = t \<and> d \<le> 1 | FileWrite fn b buf \<Rightarrow> True | _ \<Rightarrow> False)"

definition writes_only :: "event list \<Rightarrow> bool" where
  "writes_only ws = list_all (\<lambda>e. case e of FileWrite fn b buf \<Rightarrow> True | _ \<Rightarrow> False) ws"

text \<open>Every buffered packet has the direction 0 or 1; no buffered packet has the sequence
  number its direction expects next.\<close>

definition dirs_ok :: "UtpFlow \<Rightarrow> bool" where
  "dirs_ok flow = list_all (\<lambda>(p, s, d). d \<le> 1) (pending flow)"

definition no_match :: "UtpFlow \<Rightarrow> bool" where
  "no_match flow = list_all (\<lambda>(p, s, d). s \<noteq> fseq flow d) (pending flow)"

text \<open>\<open>flow.seq0 += 1\<close> or \<open>flow.seq1 += 1\<close>, by the direction (lines 397-400, 416-427).\<close>

definition bump :: "UtpFlow \<Rightarrow> nat \<Rightarrow> UtpFlow" where
  "bump flow d = (if d = 0 then flow\<lparr> seq0 := seq0 flow + 1 \<rparr> else flow\<lparr> seq1 := seq1 flow + 1 \<rparr>)"

text \<open>
  What a stretch of the reassembler does to the tracer and to the flow it works on: the flow
  table and the flow counters are untouched, the flow keeps its key and its state, only
  segments of this flow and file writes are emitted, and in each direction the delivered
  sequence numbers are consecutive from the number the flow expected, which advances by
  their count.
\<close>

definition seg_step :: "tracer \<Rightarrow> UtpFlow \<Rightarrow> tracer \<Rightarrow> UtpFlow \<Rightarrow> bool" where
  "seg_step self flow self' flow' \<longleftrightarrow>
     flows self' = flows self \<and> added self' = added self \<and> closed self' = closed self \<and>
     tup flow' = tup flow \<and> state flow' = state flow \<and>
     (\<exists>evs. events self' = events self @ evs \<and> list_all (is_sink_event (tup flow)) evs \<and>
        (\<forall>d \<le> 1. delivered (tup flow) d evs = series (fseq flow d) (length (delivered (tup flow) d evs))
              \<and> fseq flow' d = fseq flow d + of_nat (length (delivered (tup flow) d evs))))"

definition drain_post :: "tracer \<Rightarrow> UtpFlow \<Rightarrow> tracer \<times> UtpFlow \<times> (serial \<times> nat) list \<Rightarrow> bool" where
  "drain_post self flow res = (case res of (self', flow', r') \<Rightarrow>
           seg_step self flow self' flow' \<and> pending flow' = pending flow \<and> no_match flow')"

text \<open>
  Datagrams for the examples: a uTP version 1 header of 20 bytes without extensions, with
  the type \<open>t\<close>, the connection id and the sequence number, and a datagram from the endpoint
  \<open>a\<close> to the endpoint \<open>b\<close> with that header and a body. \<open>tracer_after pkts\<close> is the tracer
  after a run over \<open>pkts\<close> from a new tracer.
\<close>

definition utp_header :: "nat \<Rightarrow> nat \<Rightarrow> nat \<Rightarrow> byte list" where
  "utp_header t cid sq =
     [of_nat (t * 16 + 1), 0, of_nat (cid div 256), of_nat (cid mod 256),
      0, 0, 0, 0, 0, 0, 0, 0, 0, 0, 0, 0,
      of_nat (sq div 256), of_nat (sq mod 256), 0, 0]"

definition datagram :: "string \<times> nat \<Rightarrow> string \<times> nat \<Rightarrow> nat \<Rightarrow> nat \<Rightarrow> nat \<Rightarrow> byte list \<Rightarrow> packet" where
  "datagram a b t cid sq body =
     \<lparr> ip_src = fst a, udp_sport = snd a, ip_dst = fst b, udp_dport = snd b,
       udp_payload = utp_header t cid sq @ body \<rparr>"

definition peer_A :: "string \<times> nat" where
  "peer_A = (''A'', 1)"

definition peer_B :: "string \<times> nat" where
  "peer_B = (''B'', 2)"

definition tracer_after :: "packet list \<Rightarrow> tracer" where
  "tracer_after pkts = (case trace_all tracer_init pkts of Some (Inr self) \<Rightarrow> self | _ \<Rightarrow> tracer_init)"

text \<open>
  Every buffered packet is ahead of the number its direction expects next, by less than
  \<open>2^15\<close>: the packets that \<open>seq > fseq\<close> admits to the buffer, for as long as they
  stay in it.
\<close>

definition in_window :: "UtpFlow \<Rightarrow> bool" where
  "in_window flow =
     list_all (\<lambda>(p, s, d). 0 < unat (s - fseq flow d) \<and> unat (s - fseq flow d) < 2 ^ 15) (pending flow)"

text \<open>
  For the \<open>while\<close> loop of \<open>add_segment\<close>: the sequence numbers of the buffered
  packets of a direction, the number of steps from a sequence number to the first one that
  is not among them, and the sum of these step counts for the two numbers a flow expects,
  which every delivery of the loop decreases.
\<close>

definition seqs_of :: "(byte list \<times> serial \<times> nat) list \<Rightarrow> nat \<Rightarrow> serial set" where
  "seqs_of es d = {s. \<exists>p. (p, s, d) \<in> set es}"

definition gap :: "serial set \<Rightarrow> serial \<Rightarrow> nat" where
  "gap D s = (LEAST j. s + of_nat j \<notin> D)"

definition drain_measure :: "(byte list \<times> serial \<times> nat) list \<Rightarrow> UtpFlow \<Rightarrow> nat" where
  "drain_measure es flow = gap (seqs_of es 0) (seq0 flow) + gap (seqs_of es 1) (seq1 flow)"

text \<open>
  The flow \<open>flow'\<close> expects, in each direction, a number that is some \<open>n\<close> steps ahead
  of what \<open>flow\<close> expects, and the list \<open>r\<close> (the list \<open>removed\<close> of line 411) holds the
  \<open>n\<close> numbers in between.
\<close>

definition advanced :: "UtpFlow \<Rightarrow> UtpFlow \<Rightarrow> (serial \<times> nat) list \<Rightarrow> bool" where
  "advanced flow flow' r \<longleftrightarrow>
     (\<forall>d \<le> 1. \<exists>n. fseq flow' d = fseq flow d + of_nat n \<and>
                   (\<forall>i < n. (fseq flow d + of_nat i, d) \<in> set r))"

text \<open>
  What holds of every flow in the table and of the tracer between datagrams: a flow is stored
  under its own key; its buffer holds packets of the directions 0 and 1 only, each ahead of
  the sequence number its direction expects next; the buffer is empty during the handshake and
  not empty in \<open>CS_PENDING_CLOSE\<close>; the table is finite, and the counters agree with the
  events.
\<close>

definition flow_ok :: "flow_key \<Rightarrow> UtpFlow \<Rightarrow> bool" where
  "flow_ok k f \<longleftrightarrow> tup f = k \<and> dirs_ok f \<and> no_match f \<and> in_window f \<and>
     (state f = CS_HANDSHAKE \<longrightarrow> pending f = []) \<and>
     (state f = CS_PENDING_CLOSE \<longrightarrow> pending f \<noteq> [])"

definition tracer_ok :: "tracer \<Rightarrow> bool" where
  "tracer_ok self \<longleftrightarrow>
     finite (dom (flows self)) \<and>
     (\<forall>k f. flows self k = Some f \<longrightarrow> flow_ok k f) \<and>
     card (dom (flows self)) + count_flow_closed (events self) = count_new_flow (events self) \<and>
     added self = count_new_flow (events self) \<and>
     closed self = count_flow_closed (events self)"

text \<open>
  What a handler does to the tracer, in steps: it runs the reassembler on a flow of the table
  and stores the flow back, possibly in a new state (\<open>Update\<close>); it runs the reassembler on
  a flow and closes the flow (\<open>Close\<close>); it creates a flow under a key the table does not
  hold (\<open>Create\<close>).
\<close>

inductive effect :: "tracer \<Rightarrow> tracer \<Rightarrow> bool" where
  Update: "\<lbrakk> flows self kf = Some flow; tup flow = kf; seg_step self flow self1 flow1;
             flow_ok kf flow2; seq0 flow2 = seq0 flow1;
             state flow \<noteq> CS_HANDSHAKE \<longrightarrow> seq1 flow2 = seq1 flow1 \<and> state flow2 \<noteq> CS_HANDSHAKE \<rbrakk>
           \<Longrightarrow> effect self (put self1 kf flow2)"
| Close: "\<lbrakk> flows self kf = Some flow; tup flow = kf; seg_step self flow self1 flow1 \<rbrakk>
           \<Longrightarrow> effect self (flush_and_close self1 flow1)"
| Create: "\<lbrakk> flows self k = None; flow_ok k f \<rbrakk>
           \<Longrightarrow> effect self (new_flow (self\<lparr> flows := (flows self)(k \<mapsto> f) \<rparr>) f)"

text \<open>The writes \<open>flush_and_close\<close> makes for the two streams of a flow (lines 516-521).\<close>

definition buffer_writes :: "tracer \<Rightarrow> UtpFlow \<Rightarrow> event list" where
  "buffer_writes self flow =
     concat (map (\<lambda>d. case file_buffers self (tup flow, d) of
                         None \<Rightarrow> []
                       | Some (buf, first_time) \<Rightarrow> [FileWrite (tup flow, d) first_time buf]) [0, 1])"

text \<open>
  The events a call adds hold no \<open>flow_closed\<close> call for a flow with packets in its
  buffer.
\<close>

definition closes_empty :: "tracer \<Rightarrow> tracer \<Rightarrow> bool" where
  "closes_empty self self' \<longleftrightarrow>
     (\<exists>evs. events self' = events self @ evs \<and> (\<forall>f. FlowClosed f \<in> set evs \<longrightarrow> pending f = []))"


section \<open>Evaluation\<close>

lemmas eval_defs = trace_def parse_header_def dispatch_def lookup_def state_machine_def call_action_def
  datagram_def utp_header_def peer_A_def peer_B_def packet_type_of_def tracer_init_def fin_states_def
  action_init_syn_def action_handshake_state_def action_handshake_syn_def action_syn_acked_fin_def
  action_data_def action_connected_state_def action_connected_reset_def action_connected_fin_def
  action_initiator_sent_fin_state_def action_accepter_sent_fin_state_def action_initiator_fin_acked_fin_def
  action_accepter_fin_acked_fin_def action_both_initiator_acked_state_def action_initiator_sent_fin_fin_def
  action_accepter_sent_fin_fin_def action_both_sent_fin_state_def action_both_accepter_acked_state_def
  action_pending_close_data_def action_fin_data_def action_fin_syn_def
  UtpFlow_init_def tup4_def put_def new_flow_def flow_closed_def flush_and_close_def flush_buffer_def
  get_filename_def new_segment_def add_segment_def serial_gt_def serial_lt_def Let_def

lemma drain_eval:
  "drain self flow removed =
     (let res = scan (pending flow) self flow False removed
      in if fst (snd (snd res)) then drain (fst res) (fst (snd res)) (snd (snd (snd res)))
         else Some (fst res, fst (snd res), snd (snd (snd res))))"
  by (subst drain.simps) (simp add: Let_def split: prod.split)

section \<open>The reassembler\<close>

lemma series_0 [simp]: "series s 0 = []" by (simp add: series_def)
lemma series_Suc: "series s (Suc n) = series s n @ [s + of_nat n]" by (simp add: series_def)
lemma length_series [simp]: "length (series s n) = n" by (simp add: series_def)
lemma series_append: "series s n @ series (s + of_nat n) m = series s (n + m)"
  by (induction m) (simp_all add: series_Suc add.assoc flip: append_assoc)
lemma series_Cons: "s # series (s + 1) n = series s (Suc n)"
  using series_append[of s 1 n] by (simp add: series_Suc)

lemma delivered_append [simp]: "delivered t d (xs @ ys) = delivered t d xs @ delivered t d ys"
  by (simp add: delivered_def)
lemma delivered_Nil [simp]: "delivered t d [] = []" by (simp add: delivered_def)
lemma delivered_Cons [simp]:
  "delivered t d (NewSegment t' d' p s # es) =
     (if t' = t \<and> d' = d then s # delivered t d es else delivered t d es)"
  "delivered t d (NewFlow f # es) = delivered t d es"
  "delivered t d (FlowClosed f # es) = delivered t d es"
  "delivered t d (FileWrite fn b buf # es) = delivered t d es"
  by (simp_all add: delivered_def)
lemma new_flows_simps [simp]: "new_flows t [] = 0" "new_flows t (xs @ ys) = new_flows t xs + new_flows t ys"
  "new_flows t [NewFlow f] = (if tup f = t then 1 else 0)" "new_flows t [NewSegment t' d p s] = 0"
  "new_flows t [FlowClosed f] = 0" "new_flows t [FileWrite fn b buf] = 0"
  by (simp_all add: new_flows_def)

lemma seg_step_refl: "seg_step self flow self flow"
  by (simp add: seg_step_def)

lemma seg_step_trans:
  assumes "seg_step s1 f1 s2 f2" "seg_step s2 f2 s3 f3"
  shows "seg_step s1 f1 s3 f3"
proof -
  from assms(1) obtain e1 where e1: "events s2 = events s1 @ e1" "list_all (is_sink_event (tup f1)) e1"
    "\<forall>d \<le> 1. delivered (tup f1) d e1 = series (fseq f1 d) (length (delivered (tup f1) d e1))
              \<and> fseq f2 d = fseq f1 d + of_nat (length (delivered (tup f1) d e1))"
    and r1: "flows s2 = flows s1" "added s2 = added s1" "closed s2 = closed s1" "tup f2 = tup f1" "state f2 = state f1"
    unfolding seg_step_def by blast
  from assms(2) obtain e2 where e2: "events s3 = events s2 @ e2" "list_all (is_sink_event (tup f2)) e2"
    "\<forall>d \<le> 1. delivered (tup f2) d e2 = series (fseq f2 d) (length (delivered (tup f2) d e2))
              \<and> fseq f3 d = fseq f2 d + of_nat (length (delivered (tup f2) d e2))"
    and r2: "flows s3 = flows s2" "added s3 = added s2" "closed s3 = closed s2" "tup f3 = tup f2" "state f3 = state f2"
    unfolding seg_step_def by blast
  have "\<forall>d \<le> 1. delivered (tup f1) d (e1 @ e2) = series (fseq f1 d) (length (delivered (tup f1) d (e1 @ e2)))
              \<and> fseq f3 d = fseq f1 d + of_nat (length (delivered (tup f1) d (e1 @ e2)))"
  proof (intro allI impI)
    fix d :: nat assume d: "d \<le> 1"
    let ?a = "delivered (tup f1) d e1" and ?b = "delivered (tup f1) d e2"
    from e1(3) d have a: "?a = series (fseq f1 d) (length ?a)" "fseq f2 d = fseq f1 d + of_nat (length ?a)" by auto
    from e2(3) d r1 have b: "?b = series (fseq f2 d) (length ?b)" "fseq f3 d = fseq f2 d + of_nat (length ?b)" by auto
    have "?a @ ?b = series (fseq f1 d) (length ?a + length ?b)"
      using a(1) b(1) series_append[of "fseq f1 d" "length ?a" "length ?b"] a(2) by metis
    then show "delivered (tup f1) d (e1 @ e2) = series (fseq f1 d) (length (delivered (tup f1) d (e1 @ e2)))
              \<and> fseq f3 d = fseq f1 d + of_nat (length (delivered (tup f1) d (e1 @ e2)))"
      using a(2) b(2) by (simp add: add.assoc)
  qed
  with e1 e2 r1 r2 show ?thesis
    unfolding seg_step_def by (intro conjI exI[of _ "e1 @ e2"]) simp_all
qed

lemma writes_only_simps [simp]: "writes_only []" "writes_only [FileWrite fn b buf]"
  by (simp_all add: writes_only_def)

lemma writes_only_delivered [simp]: "writes_only ws \<Longrightarrow> delivered t d ws = []"
  by (induction ws) (auto simp: writes_only_def delivered_def split: event.splits)

lemma writes_only_new_flows [simp]: "writes_only ws \<Longrightarrow> new_flows t ws = 0"
  by (induction ws) (auto simp: writes_only_def new_flows_def split: event.splits)

lemma writes_only_sink: "writes_only ws \<Longrightarrow> list_all (is_sink_event t) ws"
  by (induction ws) (auto simp: writes_only_def is_sink_event_def split: event.splits)

lemma new_segment_events:
  "\<exists>ws. events (new_segment self flow d p s) = events self @ NewSegment (tup flow) d p s # ws
        \<and> writes_only ws"
  by (simp add: new_segment_def Let_def split: option.split prod.split)

lemma new_segment_frame [simp]:
  "flows (new_segment self flow d p s) = flows self"
  "added (new_segment self flow d p s) = added self"
  "closed (new_segment self flow d p s) = closed self"
  by (simp_all add: new_segment_def Let_def split: option.split prod.split)

lemma bump_simps [simp]: "tup (bump flow d) = tup flow" "state (bump flow d) = state flow"
  "pending (bump flow d) = pending flow"
  "d \<le> 1 \<Longrightarrow> d' \<le> 1 \<Longrightarrow> fseq (bump flow d) d' = (if d' = d then fseq flow d + 1 else fseq flow d')"
  by (auto simp: bump_def fseq_def)

lemma seg_step_single:
  assumes "d \<le> 1" "s = fseq flow d"
  shows "seg_step self flow (new_segment self flow d p s) (bump flow d)"
proof -
  obtain ws where ws: "events (new_segment self flow d p s) = events self @ NewSegment (tup flow) d p s # ws"
    "writes_only ws" using new_segment_events by blast
  have "list_all (is_sink_event (tup flow)) (NewSegment (tup flow) d p s # ws)"
    using ws(2) assms(1) by (simp add: writes_only_sink is_sink_event_def)
  moreover have "\<forall>d' \<le> 1. delivered (tup flow) d' (NewSegment (tup flow) d p s # ws)
        = series (fseq flow d') (length (delivered (tup flow) d' (NewSegment (tup flow) d p s # ws)))
      \<and> fseq (bump flow d) d' = fseq flow d' + of_nat (length (delivered (tup flow) d' (NewSegment (tup flow) d p s # ws)))"
    using ws(2) assms by (auto simp: series_Suc)
  ultimately show ?thesis
    unfolding seg_step_def using ws(1) by (intro conjI exI[of _ "NewSegment (tup flow) d p s # ws"]) simp_all
qed

lemma scan_seg_step:
  "list_all (\<lambda>(p, s, d). d \<le> 1) es \<Longrightarrow> scan es self flow a r = (self', flow', a', r')
     \<Longrightarrow> seg_step self flow self' flow' \<and> pending flow' = pending flow"
proof (induction es arbitrary: self flow a r)
  case Nil
  then show ?case by (simp add: seg_step_refl)
next
  case (Cons e es)
  obtain p s d where e: "e = (p, s, d)" by (cases e)
  from Cons.prems(1) e have d: "d \<le> 1" and es: "list_all (\<lambda>(p, s, d). d \<le> 1) es" by simp_all
  show ?case
  proof (cases "s = fseq flow d")
    case True
    have sc: "scan es (new_segment self flow d p s) (bump flow d) True (r @ [(s, d)]) = (self', flow', a', r')"
      using Cons.prems(2) True e by (auto simp: fseq_def bump_def split: if_splits)
    from Cons.IH[OF es sc] seg_step_single[OF d True, of self p]
    show ?thesis using seg_step_trans by fastforce
  next
    case False
    then have "scan es self flow a r = (self', flow', a', r')"
      using Cons.prems(2) e by (auto simp: fseq_def split: if_splits)
    from Cons.IH[OF es this] show ?thesis .
  qed
qed

lemma scan_quiet:
  "list_all (\<lambda>(p, s, d). s \<noteq> fseq flow d) es \<Longrightarrow> scan es self flow a r = (self, flow, a, r)"
  by (induction es) (auto simp: fseq_def)

lemma scan_False:
  "scan es self flow a r = (self', flow', False, r')
     \<Longrightarrow> \<not> a \<and> self' = self \<and> flow' = flow \<and> r' = r \<and> list_all (\<lambda>(p, s, d). s \<noteq> fseq flow d) es"
proof (induction es arbitrary: self flow a r)
  case Nil then show ?case by simp
next
  case (Cons e es)
  obtain p s d where e: "e = (p, s, d)" by (cases e)
  show ?case
  proof (cases "s = fseq flow d")
    case True
    then have "scan es (new_segment self flow d p s) (bump flow d) True (r @ [(s, d)]) = (self', flow', False, r')"
      using Cons.prems e by (auto simp: fseq_def bump_def split: if_splits)
    from Cons.IH[OF this] show ?thesis by simp
  next
    case False
    then have "scan es self flow a r = (self', flow', False, r')"
      using Cons.prems e by (auto simp: fseq_def split: if_splits)
    from Cons.IH[OF this] False e show ?thesis by simp
  qed
qed


lemma drain_props_aux:
  assumes "drain self flow r = Some res"
  shows "dirs_ok flow \<longrightarrow> drain_post self flow res"
proof (rule drain.raw_induct[where P = "\<lambda>self flow r res. dirs_ok flow \<longrightarrow> drain_post self flow res",
        OF _ assms], intro impI)
  fix drain' self flow r res
  assume IH: "\<And>s f r y. drain' s f r = Some y \<Longrightarrow> dirs_ok f \<longrightarrow> drain_post s f y"
    and body: "(case scan (pending flow) self flow False r of
                  (self', flow', added_some, removed') \<Rightarrow>
                    if added_some then drain' self' flow' removed'
                    else Some (self', flow', removed')) = Some res"
    and ok: "dirs_ok flow"
  obtain s1 f1 a1 r1 where sc: "scan (pending flow) self flow False r = (s1, f1, a1, r1)"
    by (cases "scan (pending flow) self flow False r") auto
  from scan_seg_step[OF ok[unfolded dirs_ok_def] sc]
  have st: "seg_step self flow s1 f1" "pending f1 = pending flow"
    by simp_all
  show "drain_post self flow res"
  proof (cases a1)
    case True
    with body sc have "drain' s1 f1 r1 = Some res" by simp
    from IH[OF this] st ok have "drain_post s1 f1 res"
      by (simp add: dirs_ok_def)
    with st show ?thesis by (auto simp: drain_post_def intro: seg_step_trans)
  next
    case False
    with body sc have res: "res = (s1, f1, r1)" by simp
    from scan_False[of "pending flow" self flow False r s1 f1 r1] sc False
    have "f1 = flow" "list_all (\<lambda>(p, s, d). s \<noteq> fseq flow d) (pending flow)" by simp_all
    with st res show ?thesis by (simp add: no_match_def drain_post_def)
  qed
qed

lemma filter_no_match: "list_all P xs \<Longrightarrow> list_all P (filter Q xs)"
  by (induction xs) auto

lemma add_segment_props:
  assumes "add_segment self flow d p s = Some (self', flow')" "dirs_ok flow" "d \<le> 1"
  shows "seg_step self flow self' flow'" "no_match flow'" "dirs_ok flow'"
    "set (pending flow') \<subseteq> set (pending flow) \<union> {(p, s, d)}"
proof -
  define s1 where "s1 = (if s = fseq flow d then new_segment self flow d p s else self)"
  define f1 where "f1 = (if s = fseq flow d then bump flow d
     else if serial_gt s (fseq flow d) then flow\<lparr> pending := pending flow @ [(p, s, d)] \<rparr> else flow)"
  from assms(1) obtain s2 f2 r2 where dr: "drain s1 f1 [] = Some (s2, f2, r2)"
    and res: "self' = s2"
      "flow' = f2\<lparr> pending := filter (\<lambda>i. (fst (snd i), snd (snd i)) \<notin> set r2) (pending f2) \<rparr>"
    unfolding add_segment_def s1_def f1_def bump_def fseq_def Let_def
    by (auto split: if_splits option.splits)
  have ok1: "dirs_ok f1" using assms(2,3) by (auto simp: f1_def dirs_ok_def bump_def)
  have st1: "seg_step self flow s1 f1"
  proof (cases "s = fseq flow d")
    case True
    then show ?thesis using seg_step_single[OF assms(3) True, of self p] by (simp add: s1_def f1_def)
  next
    case False
    have "seg_step self flow self (flow\<lparr> pending := pending flow @ [(p, s, d)] \<rparr>)"
      by (simp add: seg_step_def fseq_def)
    with False show ?thesis by (simp add: s1_def f1_def seg_step_refl)
  qed
  from drain_props_aux[OF dr] ok1 have post: "seg_step s1 f1 s2 f2" "pending f2 = pending f1" "no_match f2"
    by (simp_all add: drain_post_def)
  have "seg_step s2 f2 self' flow'" using res by (simp add: seg_step_def fseq_def)
  with st1 post(1) show "seg_step self flow self' flow'" by (blast intro: seg_step_trans)
  have fs: "fseq flow' = fseq f2" using res by (simp add: fseq_def fun_eq_iff)
  have pe: "pending flow' = filter (\<lambda>i. (fst (snd i), snd (snd i)) \<notin> set r2) (pending f2)"
    using res by simp
  show "no_match flow'" using post(3) unfolding no_match_def fs pe by (rule filter_no_match)
  show "dirs_ok flow'" using ok1 unfolding dirs_ok_def pe post(2) by (rule filter_no_match)
  show "set (pending flow') \<subseteq> set (pending flow) \<union> {(p, s, d)}"
    using res post(2) by (auto simp: f1_def bump_def split: if_splits)
qed

lemma serial_lt_asym: "serial_lt a b \<Longrightarrow> \<not> serial_lt b a"
  by (auto simp: serial_lt_def)

lemma serial_lt_neq: "serial_lt a b \<Longrightarrow> a \<noteq> b"
  by (auto simp: serial_lt_def)

lemma add_segment_duplicate:
  assumes "no_match flow" "serial_lt s (fseq flow d)"
  shows "add_segment self flow d p s = Some (self, flow)"
proof -
  have q: "scan (pending flow) self flow False [] = (self, flow, False, [])"
    using assms(1) by (intro scan_quiet) (simp add: no_match_def)
  have "drain self flow [] = Some (self, flow, [])"
    by (subst drain.simps) (simp add: q)
  then show ?thesis
    using serial_lt_asym[OF assms(2)] serial_lt_neq[OF assms(2)]
    by (simp add: add_segment_def fseq_def serial_gt_def)
qed


lemma serial_gt_window:
  "serial_gt s f \<longleftrightarrow> 0 < unat (s - f) \<and> unat (s - f) < 2 ^ 15"
proof -
  have b: "unat s < 65536" "unat f < 65536"
    using unsigned_less[of s, where ?'a = nat] unsigned_less[of f, where ?'a = nat] by simp_all
  have e: "s = f \<longleftrightarrow> unat s = unat f" by (simp add: word_unat_eq_iff)
  show ?thesis
    unfolding serial_gt_def serial_lt_def e using b
    by (auto simp: unat_sub_if_size word_size)
qed

lemma gap_step:
  assumes "x \<notin> D" "s \<in> D"
  shows "gap D (s + 1) < gap D s"
proof -
  let ?P = "\<lambda>j. s + of_nat j \<notin> D"
  have ex: "?P (unat (x - s))" using assms(1) by simp
  define j0 where "j0 = (LEAST j. ?P j)"
  have P0: "?P j0" unfolding j0_def using ex by (rule LeastI)
  have "j0 \<noteq> 0" using P0 assms(2) by (cases j0) auto
  then obtain j1 where j1: "j0 = Suc j1" by (cases j0) auto
  have "s + 1 + of_nat j1 \<notin> D" using P0 j1 by (simp add: ac_simps)
  then have "(LEAST j. s + 1 + of_nat j \<notin> D) \<le> j1" by (rule Least_le)
  then show ?thesis unfolding gap_def using j1 j0_def by simp
qed

lemma scan_measure:
  assumes "set es \<subseteq> set P" "list_all (\<lambda>(p, s, d). d \<le> 1) es"
    "x0 \<notin> seqs_of P 0" "x1 \<notin> seqs_of P 1"
    "scan es self flow a r = (self', flow', a', r')"
  shows "drain_measure P flow' \<le> drain_measure P flow \<and> (a \<longrightarrow> a') \<and>
         (a' \<and> \<not> a \<longrightarrow> drain_measure P flow' < drain_measure P flow)"
  using assms(1,2,5)
proof (induction es arbitrary: self flow a r)
  case Nil
  then show ?case by simp
next
  case (Cons e es)
  obtain p s d where e: "e = (p, s, d)" by (cases e)
  from Cons.prems e have sub: "set es \<subseteq> set P" and mem: "(p, s, d) \<in> set P"
    and d: "d \<le> 1" and dirs: "list_all (\<lambda>(p, s, d). d \<le> 1) es" by auto
  show ?case
  proof (cases "s = fseq flow d")
    case True
    have sc: "scan es (new_segment self flow d p s) (bump flow d) True (r @ [(s, d)]) = (self', flow', a', r')"
      using Cons.prems(3) True e by (auto simp: fseq_def bump_def split: if_splits)
    have dec: "drain_measure P (bump flow d) < drain_measure P flow"
    proof (cases "d = 0")
      case d0: True
      have "seq0 flow \<in> seqs_of P 0" using mem True d0 by (auto simp: seqs_of_def fseq_def)
      from gap_step[OF assms(3) this] d0 show ?thesis by (simp add: drain_measure_def bump_def)
    next
      case d1: False
      with d have d1': "d = 1" by simp
      have "seq1 flow \<in> seqs_of P 1" using mem True d1' by (auto simp: seqs_of_def fseq_def)
      from gap_step[OF assms(4) this] d1' show ?thesis by (simp add: drain_measure_def bump_def)
    qed
    from Cons.IH[OF sub dirs sc] dec show ?thesis by auto
  next
    case False
    then have "scan es self flow a r = (self', flow', a', r')"
      using Cons.prems(3) e by (auto simp: fseq_def split: if_splits)
    from Cons.IH[OF sub dirs this] show ?thesis .
  qed
qed

lemma drain_returns:
  assumes "dirs_ok flow" "x0 \<notin> seqs_of (pending flow) 0" "x1 \<notin> seqs_of (pending flow) 1"
  shows "\<exists>res. drain self flow r = Some res"
  using assms
proof (induction "drain_measure (pending flow) flow" arbitrary: self flow r rule: less_induct)
  case less
  obtain s1 f1 a1 r1 where sc: "scan (pending flow) self flow False r = (s1, f1, a1, r1)"
    by (cases "scan (pending flow) self flow False r") auto
  from scan_seg_step[OF less.prems(1)[unfolded dirs_ok_def] sc]
  have pe: "pending f1 = pending flow" by simp
  show ?case
  proof (cases a1)
    case False
    with sc show ?thesis by (subst drain.simps) simp
  next
    case True
    from scan_measure[OF subset_refl less.prems(1)[unfolded dirs_ok_def] less.prems(2,3) sc] True
    have "drain_measure (pending flow) f1 < drain_measure (pending flow) flow" by simp
    then have "\<exists>res. drain s1 f1 r1 = Some res"
      using less.hyps[of f1 s1 r1] less.prems pe by (simp add: dirs_ok_def)
    with sc True show ?thesis by (subst drain.simps) simp
  qed
qed

lemma advanced_refl: "advanced flow flow r"
  unfolding advanced_def by (intro allI impI exI[of _ 0]) simp

lemma advanced_trans:
  assumes "advanced f1 f2 r" "advanced f2 f3 r'" "set r \<subseteq> set r'"
  shows "advanced f1 f3 r'"
  unfolding advanced_def
proof (intro allI impI)
  fix d :: nat assume d: "d \<le> 1"
  from assms(1) d obtain n where n: "fseq f2 d = fseq f1 d + of_nat n"
    "\<forall>i < n. (fseq f1 d + of_nat i, d) \<in> set r" unfolding advanced_def by blast
  from assms(2) d obtain m where m: "fseq f3 d = fseq f2 d + of_nat m"
    "\<forall>i < m. (fseq f2 d + of_nat i, d) \<in> set r'" unfolding advanced_def by blast
  have "\<forall>i < n + m. (fseq f1 d + of_nat i, d) \<in> set r'"
  proof (intro allI impI)
    fix i assume i: "i < n + m"
    show "(fseq f1 d + of_nat i, d) \<in> set r'"
    proof (cases "i < n")
      case True
      with n(2) assms(3) show ?thesis by auto
    next
      case False
      then have lt: "i - n < m" using i by simp
      have "of_nat i = (of_nat n + of_nat (i - n) :: serial)"
        using False by (simp flip: of_nat_add)
      then have "fseq f1 d + of_nat i = fseq f2 d + of_nat (i - n)"
        by (simp add: n(1) add.assoc)
      with m(2) lt show ?thesis by simp
    qed
  qed
  with n(1) m(1) show "\<exists>k. fseq f3 d = fseq f1 d + of_nat k \<and> (\<forall>i < k. (fseq f1 d + of_nat i, d) \<in> set r')"
    by (intro exI[of _ "n + m"]) (simp add: add.assoc)
qed

lemma advanced_bump:
  assumes "d \<le> 1" "(fseq flow d, d) \<in> set r"
  shows "advanced flow (bump flow d) r"
  unfolding advanced_def
proof (intro allI impI)
  fix d' :: nat assume d': "d' \<le> 1"
  show "\<exists>n. fseq (bump flow d) d' = fseq flow d' + of_nat n \<and> (\<forall>i < n. (fseq flow d' + of_nat i, d') \<in> set r)"
  proof (cases "d' = d")
    case True
    with assms show ?thesis by (intro exI[of _ 1]) simp
  next
    case False
    with assms(1) d' show ?thesis by (intro exI[of _ 0]) simp
  qed
qed

lemma scan_advanced:
  "list_all (\<lambda>(p, s, d). d \<le> 1) es \<Longrightarrow> scan es self flow a r = (self', flow', a', r')
     \<Longrightarrow> set r \<subseteq> set r' \<and> advanced flow flow' r'"
proof (induction es arbitrary: self flow a r)
  case Nil
  then show ?case by (simp add: advanced_refl)
next
  case (Cons e es)
  obtain p s d where e: "e = (p, s, d)" by (cases e)
  from Cons.prems(1) e have d: "d \<le> 1" and es: "list_all (\<lambda>(p, s, d). d \<le> 1) es" by simp_all
  show ?case
  proof (cases "s = fseq flow d")
    case True
    have sc: "scan es (new_segment self flow d p s) (bump flow d) True (r @ [(s, d)]) = (self', flow', a', r')"
      using Cons.prems(2) True e by (auto simp: fseq_def bump_def split: if_splits)
    from Cons.IH[OF es sc] have sub: "set (r @ [(s, d)]) \<subseteq> set r'" and adv: "advanced (bump flow d) flow' r'"
      by simp_all
    have "advanced flow (bump flow d) (r @ [(s, d)])" using d True by (intro advanced_bump) simp_all
    from advanced_trans[OF this adv sub] sub show ?thesis by simp
  next
    case False
    then have "scan es self flow a r = (self', flow', a', r')"
      using Cons.prems(2) e by (auto simp: fseq_def split: if_splits)
    from Cons.IH[OF es this] show ?thesis .
  qed
qed

lemma drain_advanced_aux:
  assumes "drain self flow r = Some res"
  shows "dirs_ok flow \<longrightarrow> set r \<subseteq> set (snd (snd res)) \<and> advanced flow (fst (snd res)) (snd (snd res))"
proof (rule drain.raw_induct[where P = "\<lambda>self flow r res. dirs_ok flow \<longrightarrow>
          set r \<subseteq> set (snd (snd res)) \<and> advanced flow (fst (snd res)) (snd (snd res))",
        OF _ assms], intro impI)
  fix drain' self flow r res
  assume IH: "\<And>s f r y. drain' s f r = Some y \<Longrightarrow> dirs_ok f \<longrightarrow>
                 set r \<subseteq> set (snd (snd y)) \<and> advanced f (fst (snd y)) (snd (snd y))"
    and body: "(case scan (pending flow) self flow False r of
                  (self', flow', added_some, removed') \<Rightarrow>
                    if added_some then drain' self' flow' removed'
                    else Some (self', flow', removed')) = Some res"
    and ok: "dirs_ok flow"
  obtain s1 f1 a1 r1 where sc: "scan (pending flow) self flow False r = (s1, f1, a1, r1)"
    by (cases "scan (pending flow) self flow False r") auto
  from scan_seg_step[OF ok[unfolded dirs_ok_def] sc] have pe: "pending f1 = pending flow" by simp
  from scan_advanced[OF ok[unfolded dirs_ok_def] sc] have a: "set r \<subseteq> set r1" "advanced flow f1 r1"
    by simp_all
  show "set r \<subseteq> set (snd (snd res)) \<and> advanced flow (fst (snd res)) (snd (snd res))"
  proof (cases a1)
    case True
    with body sc have "drain' s1 f1 r1 = Some res" by simp
    from IH[OF this] ok pe
    have b: "set r1 \<subseteq> set (snd (snd res))" "advanced f1 (fst (snd res)) (snd (snd res))"
      by (simp_all add: dirs_ok_def)
    from advanced_trans[OF a(2) b(2) b(1)] a(1) b(1) show ?thesis by auto
  next
    case False
    with body sc have "res = (s1, f1, r1)" by simp
    with a show ?thesis by simp
  qed
qed

lemma unat_sub_of_nat:
  fixes a :: serial
  assumes "n \<le> unat a"
  shows "unat (a - of_nat n) = unat a - n"
proof -
  have u: "unat (of_nat n :: serial) = n" using assms by (rule le_unat_uoi)
  then have "(of_nat n :: serial) \<le> a" using assms by (simp add: word_le_nat_alt)
  from unat_sub[OF this] u show ?thesis by simp
qed

lemma word_recover: "f + of_nat (unat (s - f)) = (s :: serial)"
  by simp

lemma add_segment_start:
  assumes "add_segment self flow d p s = Some (self', flow')"
  obtains s1 f1 s2 f2 r2 where
    "f1 = (if s = fseq flow d then bump flow d
           else if serial_gt s (fseq flow d) then flow\<lparr> pending := pending flow @ [(p, s, d)] \<rparr>
           else flow)"
    "drain s1 f1 [] = Some (s2, f2, r2)"
    "flow' = f2\<lparr> pending := filter (\<lambda>i. (fst (snd i), snd (snd i)) \<notin> set r2) (pending f2) \<rparr>"
  using assms unfolding add_segment_def bump_def fseq_def Let_def
  by (auto split: if_splits option.splits)

lemma weak_window:
  assumes w: "in_window flow" and d: "d \<le> 1"
    and f1: "f1 = (if s = fseq flow d then bump flow d
           else if serial_gt s (fseq flow d) then flow\<lparr> pending := pending flow @ [(p, s, d)] \<rparr>
           else flow)"
    and m: "(p', s', d') \<in> set (pending f1)" and d': "d' \<le> 1"
  shows "unat (s' - fseq f1 d') < 2 ^ 15" "0 < unat (s' - fseq flow d')" "unat (s' - fseq flow d') < 2 ^ 15"
proof -
  have W: "0 < unat (s' - fseq flow d') \<and> unat (s' - fseq flow d') < 2 ^ 15"
    using w m f1 serial_gt_window[of s "fseq flow d"]
    by (auto simp: in_window_def list_all_iff bump_def split: if_splits)
  then show "0 < unat (s' - fseq flow d')" "unat (s' - fseq flow d') < 2 ^ 15" by simp_all
  show "unat (s' - fseq f1 d') < 2 ^ 15"
  proof (cases "s = fseq flow d \<and> d' = d")
    case True
    then have "fseq f1 d' = fseq flow d' + 1" using f1 d by simp
    then have "s' - fseq f1 d' = (s' - fseq flow d') - of_nat 1" by simp
    then have "unat (s' - fseq f1 d') = unat ((s' - fseq flow d') - of_nat 1)"
      by (rule arg_cong)
    also have "\<dots> = unat (s' - fseq flow d') - 1"
      using W by (intro unat_sub_of_nat) simp
    finally show ?thesis using W by linarith
  next
    case False
    then have "fseq f1 d' = fseq flow d'" using f1 d d' by (auto simp: fseq_def bump_def)
    with W show ?thesis by simp
  qed
qed

lemma add_segment_window:
  assumes as: "add_segment self flow d p s = Some (self', flow')"
    and ok: "dirs_ok flow" and w: "in_window flow" and d: "d \<le> 1"
  shows "in_window flow'"
proof -
  from as obtain s1 f1 s2 f2 r2 where
    f1: "f1 = (if s = fseq flow d then bump flow d
           else if serial_gt s (fseq flow d) then flow\<lparr> pending := pending flow @ [(p, s, d)] \<rparr>
           else flow)"
    and dr: "drain s1 f1 [] = Some (s2, f2, r2)"
    and res: "flow' = f2\<lparr> pending := filter (\<lambda>i. (fst (snd i), snd (snd i)) \<notin> set r2) (pending f2) \<rparr>"
    by (rule add_segment_start)
  have ok1: "dirs_ok f1" using ok d f1 by (auto simp: dirs_ok_def bump_def)
  from drain_props_aux[OF dr] ok1 have post: "pending f2 = pending f1" "no_match f2"
    by (simp_all add: drain_post_def)
  from drain_advanced_aux[OF dr] ok1 have adv: "advanced f1 f2 r2" by simp
  have fs: "fseq flow' = fseq f2" using res by (simp add: fseq_def fun_eq_iff)
  show ?thesis
    unfolding in_window_def list_all_iff
  proof (intro ballI, clarify)
    fix p' s' d' assume m': "(p', s', d') \<in> set (pending flow')"
    then have m: "(p', s', d') \<in> set (pending f1)" and nr: "(s', d') \<notin> set r2"
      using res post(1) by auto
    have d': "d' \<le> 1" using ok1 m by (auto simp: dirs_ok_def list_all_iff)
    let ?k = "unat (s' - fseq f1 d')"
    have k: "?k < 2 ^ 15" using weak_window(1)[OF w d f1 m d'] .
    from adv d' obtain n where n: "fseq f2 d' = fseq f1 d' + of_nat n"
      "\<forall>i < n. (fseq f1 d' + of_nat i, d') \<in> set r2" unfolding advanced_def by blast
    have "\<not> ?k < n"
    proof
      assume "?k < n"
      with n(2) have "(fseq f1 d' + of_nat ?k, d') \<in> set r2" by blast
      with nr show False by simp
    qed
    moreover have "?k \<noteq> n"
    proof
      assume "?k = n"
      then have "s' = fseq f2 d'" using n(1) word_recover[of "fseq f1 d'" s'] by simp
      moreover have "s' \<noteq> fseq f2 d'"
        using post m by (auto simp: no_match_def list_all_iff)
      ultimately show False by simp
    qed
    ultimately have gt: "n < ?k" by simp
    have "s' - fseq f2 d' = (s' - fseq f1 d') - of_nat n" using n(1) by simp
    then have "unat (s' - fseq f2 d') = unat ((s' - fseq f1 d') - of_nat n)"
      by (rule arg_cong)
    also have "\<dots> = ?k - n"
      using gt by (intro unat_sub_of_nat) simp
    finally have "unat (s' - fseq f2 d') = ?k - n" .
    with gt k show "0 < unat (s' - fseq flow' d') \<and> unat (s' - fseq flow' d') < 2 ^ 15"
      unfolding fs by simp
  qed
qed

lemma add_segment_returns:
  assumes ok: "dirs_ok flow" and w: "in_window flow" and d: "d \<le> 1"
  shows "\<exists>res. add_segment self flow d p s = Some res"
proof -
  define s1 where "s1 = (if s = fseq flow d then new_segment self flow d p s else self)"
  define f1 where "f1 = (if s = fseq flow d then bump flow d
           else if serial_gt s (fseq flow d) then flow\<lparr> pending := pending flow @ [(p, s, d)] \<rparr>
           else flow)"
  have ok1: "dirs_ok f1" using ok d by (auto simp: f1_def dirs_ok_def bump_def)
  have out: "fseq flow d' + 32768 \<notin> seqs_of (pending f1) d'" if d': "d' \<le> 1" for d'
  proof
    assume "fseq flow d' + 32768 \<in> seqs_of (pending f1) d'"
    then obtain p' where m: "(p', fseq flow d' + 32768, d') \<in> set (pending f1)"
      by (auto simp: seqs_of_def)
    from weak_window(3)[OF w d f1_def m d'] show False by simp
  qed
  from drain_returns[OF ok1 out[of 0] out[of 1], of s1 "[]"]
  obtain res where "drain s1 f1 [] = Some res" by auto
  then show ?thesis
    unfolding add_segment_def s1_def f1_def bump_def fseq_def Let_def
    by (auto split: if_splits prod.splits)
qed

section \<open>The tracer between datagrams\<close>

lemma count_simps [simp]:
  "count_new_flow [] = 0" "count_new_flow (xs @ ys) = count_new_flow xs + count_new_flow ys"
  "count_new_flow (NewFlow f # xs) = Suc (count_new_flow xs)"
  "count_new_flow (FlowClosed f # xs) = count_new_flow xs"
  "count_flow_closed [] = 0" "count_flow_closed (xs @ ys) = count_flow_closed xs + count_flow_closed ys"
  "count_flow_closed (FlowClosed f # xs) = Suc (count_flow_closed xs)"
  "count_flow_closed (NewFlow f # xs) = count_flow_closed xs"
  by (simp_all add: count_new_flow_def count_flow_closed_def)

lemma sink_events_counts:
  "list_all (is_sink_event t) evs \<Longrightarrow> count_new_flow evs = 0 \<and> count_flow_closed evs = 0 \<and> new_flows t' evs = 0"
  by (induction evs) (auto simp: is_sink_event_def count_new_flow_def count_flow_closed_def new_flows_def split: event.splits)


lemma writes_only_counts [simp]:
  "writes_only ws \<Longrightarrow> count_new_flow ws = 0" "writes_only ws \<Longrightarrow> count_flow_closed ws = 0"
  using sink_events_counts[OF writes_only_sink] by blast+

lemma flush_buffer_props:
  "flows (flush_buffer self flow d) = flows self"
  "added (flush_buffer self flow d) = added self"
  "closed (flush_buffer self flow d) = closed self"
  "\<exists>ws. events (flush_buffer self flow d) = events self @ ws \<and> writes_only ws"
  "file_buffers (flush_buffer self flow d) = (file_buffers self)((tup flow, d) := None)"
  by (auto simp: flush_buffer_def get_filename_def Let_def split: option.split)

lemma flush_and_close_props:
  "flows (flush_and_close self flow) = (flows self)(tup flow := None)"
  "added (flush_and_close self flow) = added self"
  "closed (flush_and_close self flow) = Suc (closed self)"
  "\<exists>ws. events (flush_and_close self flow) = events self @ ws @ [FlowClosed flow] \<and> writes_only ws"
  "file_buffers (flush_and_close self flow) = (file_buffers self)((tup flow, 0) := None, (tup flow, 1) := None)"
proof -
  obtain w0 where w0: "events (flush_buffer self flow 0) = events self @ w0" "writes_only w0"
    using flush_buffer_props(4) by blast
  obtain w1 where w1: "events (flush_buffer (flush_buffer self flow 0) flow 1) = events (flush_buffer self flow 0) @ w1"
    "writes_only w1" using flush_buffer_props(4) by blast
  have "writes_only (w0 @ w1)" using w0(2) w1(2) by (simp add: writes_only_def)
  then show "\<exists>ws. events (flush_and_close self flow) = events self @ ws @ [FlowClosed flow] \<and> writes_only ws"
    using w0(1) w1(1) by (intro exI[of _ "w0 @ w1"]) (simp add: flush_and_close_def flow_closed_def Let_def)
qed (simp_all add: flush_and_close_def flow_closed_def Let_def flush_buffer_props)

lemma flush_and_close_put:
  "tup flow = kf \<Longrightarrow> flush_and_close (put self kf flow) flow = flush_and_close self flow"
  by (simp add: flush_and_close_def flow_closed_def put_def flush_buffer_def get_filename_def Let_def
        split: option.split)

lemma put_same: "flows self kf = Some flow \<Longrightarrow> put self kf flow = self"
  by (simp add: put_def fun_upd_idem)

lemma tracer_ok_init: "tracer_ok tracer_init"
  by (simp add: tracer_ok_def tracer_init_def)

lemma effect_tracer_ok:
  assumes "effect self self'" "tracer_ok self"
  shows "tracer_ok self'"
  using assms
proof (induction rule: effect.induct)
  case (Update self kf flow self1 flow1 flow2)
  from Update(3) obtain evs where ev: "events self1 = events self @ evs" "list_all (is_sink_event (tup flow)) evs"
    and fr: "flows self1 = flows self" "added self1 = added self" "closed self1 = closed self"
    unfolding seg_step_def by blast
  have dom: "dom (flows (put self1 kf flow2)) = dom (flows self)"
    using Update(1) fr by (auto simp: put_def)
  show ?case
    using Update(7) Update(4) ev fr dom sink_events_counts[OF ev(2)]
    by (auto simp: tracer_ok_def put_def)
next
  case (Close self kf flow self1 flow1)
  from Close(3) obtain evs where ev: "events self1 = events self @ evs" "list_all (is_sink_event (tup flow)) evs"
    and fr: "flows self1 = flows self" "added self1 = added self" "closed self1 = closed self" "tup flow1 = tup flow"
    unfolding seg_step_def by blast
  obtain ws where ws: "events (flush_and_close self1 flow1) = events self1 @ ws @ [FlowClosed flow1]" "writes_only ws"
    using flush_and_close_props(4) by blast
  have fl: "flows (flush_and_close self1 flow1) = (flows self)(kf := None)"
    using fr Close(2) by (simp add: flush_and_close_props)
  have fin: "finite (dom (flows self))" using Close(4) by (simp add: tracer_ok_def)
  have "kf \<in> dom (flows self)" using Close(1) by auto
  then have card: "card (dom ((flows self)(kf := None))) + 1 = card (dom (flows self))"
    using fin card.remove[of "dom (flows self)" kf] by simp
  show ?case
    using Close(4) ev ws fl fr card sink_events_counts[OF ev(2)] fin
    by (auto simp: tracer_ok_def flush_and_close_props)
next
  case (Create self k f)
  have fin: "finite (dom (flows self))" using Create(3) by (simp add: tracer_ok_def)
  have "k \<notin> dom (flows self)" using Create(1) by auto
  then show ?case
    using Create fin by (auto simp: tracer_ok_def new_flow_def)
qed


lemma fseq_state [simp]: "fseq (flow\<lparr> state := X \<rparr>) = fseq flow"
  by (simp add: fseq_def fun_eq_iff)

lemma flow_ok_state:
  "flow_ok kf flow \<Longrightarrow> X \<noteq> CS_HANDSHAKE \<Longrightarrow> (X = CS_PENDING_CLOSE \<longrightarrow> pending flow \<noteq> [])
     \<Longrightarrow> flow_ok kf (flow\<lparr> state := X \<rparr>)"
  by (simp add: flow_ok_def dirs_ok_def no_match_def in_window_def)

lemma effect_set_state:
  assumes "flows self kf = Some flow" "flow_ok kf flow" "X \<noteq> CS_HANDSHAKE"
    "X = CS_PENDING_CLOSE \<longrightarrow> pending flow \<noteq> []"
  shows "effect self (put self kf (flow\<lparr> state := X \<rparr>))"
  using assms
  by (intro effect.Update[where flow = flow and ?flow1.0 = flow] flow_ok_state seg_step_refl)
     (simp_all add: flow_ok_def)

lemma effect_ack:
  assumes "flows self kf = Some flow" "flow_ok kf flow" "state flow = CS_HANDSHAKE"
  shows "effect self (put self kf (flow\<lparr> seq1 := s, state := CS_SYN_ACKED \<rparr>))"
  using assms
  by (intro effect.Update[where flow = flow and ?flow1.0 = flow] seg_step_refl)
     (simp_all add: flow_ok_def dirs_ok_def no_match_def in_window_def)

lemma effect_segment:
  assumes "flows self kf = Some flow" "flow_ok kf flow" "add_segment self flow d p s = Some (self1, flow1)"
    "d \<le> 1" "X \<noteq> CS_HANDSHAKE" "X = CS_PENDING_CLOSE \<longrightarrow> pending flow1 \<noteq> []"
  shows "effect self (put self1 kf (flow1\<lparr> state := X \<rparr>))"
proof -
  have ok: "dirs_ok flow" "tup flow = kf" "in_window flow" using assms(2) by (simp_all add: flow_ok_def)
  note p = add_segment_props[OF assms(3) ok(1) assms(4)]
  note w = add_segment_window[OF assms(3) ok(1) ok(3) assms(4)]
  have "tup flow1 = kf" using p(1) ok(2) by (simp add: seg_step_def)
  have "flow_ok kf (flow1\<lparr> state := X \<rparr>)"
    using p w \<open>tup flow1 = kf\<close> assms(5,6)
    by (simp add: flow_ok_def dirs_ok_def no_match_def in_window_def)
  then show ?thesis
    using assms(1,5) ok(2) p(1)
    by (intro effect.Update[where flow = flow and ?flow1.0 = flow1]) simp_all
qed

lemma effect_close:
  assumes "flows self kf = Some flow" "flow_ok kf flow"
  shows "effect self (flush_and_close self flow)"
  using assms by (intro effect.Close[where flow = flow and kf = kf] seg_step_refl) (simp_all add: flow_ok_def)

lemma effect_segment_close:
  assumes "flows self kf = Some flow" "flow_ok kf flow" "add_segment self flow d p s = Some (self1, flow1)"
    "d \<le> 1"
  shows "effect self (flush_and_close (put self1 kf flow1) flow1)"
proof -
  have ok: "dirs_ok flow" "tup flow = kf" using assms(2) by (simp_all add: flow_ok_def)
  note p = add_segment_props[OF assms(3) ok(1) assms(4)]
  have t: "tup flow1 = kf" using p(1) ok(2) by (simp add: seg_step_def)
  show ?thesis
    unfolding flush_and_close_put[OF t]
    using assms(1) ok(2) p(1) by (rule effect.Close)
qed

lemma flow_ok_init: "flow_ok (a, b, c, d, e) (UtpFlow_init a b c d e s)"
  by (simp add: flow_ok_def UtpFlow_init_def dirs_ok_def no_match_def in_window_def)

lemma effect_create:
  assumes "flows self (a, b, c, d, e) = None"
  shows "effect self (new_flow (self\<lparr> flows := (flows self)((a, b, c, d, e) \<mapsto> UtpFlow_init a b c d e s) \<rparr>)
                        (UtpFlow_init a b c d e s))"
  using assms flow_ok_init by (rule effect.Create)

lemma state_machine_inv:
  assumes "state_machine (s, t, ex) = Some a"
  shows "case a of
           Act_init_syn \<Rightarrow> \<not> ex \<and> t = ST_SYN
         | Act_handshake_state \<Rightarrow> s = CS_HANDSHAKE \<and> t = ST_STATE
         | Act_handshake_syn \<Rightarrow> s = CS_HANDSHAKE \<and> t = ST_SYN
         | Act_pending_close_data \<Rightarrow> s = CS_PENDING_CLOSE \<and> t = ST_DATA
         | Act_fin_data \<Rightarrow> s \<in> set fin_states \<and> t = ST_DATA
         | Act_fin_syn \<Rightarrow> s \<in> set fin_states \<and> t = ST_SYN
         | Act_data \<Rightarrow> t = ST_DATA
         | Act_connected_reset \<Rightarrow> s = CS_CONNECTED \<and> t = ST_RESET
         | Act_connected_state \<Rightarrow> t = ST_STATE
         | Act_initiator_sent_fin_state \<Rightarrow> t = ST_STATE
         | Act_accepter_sent_fin_state \<Rightarrow> s = CS_ACCEPTER_SENT_FIN \<and> t = ST_STATE
         | Act_both_initiator_acked_state \<Rightarrow> t = ST_STATE
         | Act_both_sent_fin_state \<Rightarrow> t = ST_STATE
         | Act_both_accepter_acked_state \<Rightarrow> t = ST_STATE
         | _ \<Rightarrow> t = ST_FIN"
  using assms by (auto simp: state_machine_def split: if_splits)

lemma lookup_SomeD:
  assumes "lookup fls src sport dst dport t cid = Some (kf, flow)"
  shows "fls kf = Some flow"
    "kf = (src, sport, dst, dport, if t = ST_SYN then cid else cid - 1)
     \<or> (fls (src, sport, dst, dport, if t = ST_SYN then cid else cid - 1) = None
        \<and> kf = (dst, dport, src, sport, cid))"
  using assms by (auto simp: lookup_def Let_def split: option.splits)

lemma lookup_NoneD:
  assumes "lookup fls src sport dst dport t cid = None"
  shows "fls (src, sport, dst, dport, if t = ST_SYN then cid else cid - 1) = None"
  using assms by (auto simp: lookup_def Let_def split: option.splits)

lemma fin_states_simps [simp]:
  "CS_HANDSHAKE \<notin> set fin_states" "CS_PENDING_CLOSE \<notin> set fin_states"
  by (simp_all add: fin_states_def)

lemma call_action_effect:
  assumes ok: "flow_ok kf flow" and fl: "flows self kf = Some flow"
    and lk: "kf = (src, sport, dst, dport, if t = ST_SYN then cid else cid - 1)
             \<or> (flows self (src, sport, dst, dport, if t = ST_SYN then cid else cid - 1) = None
                \<and> kf = (dst, dport, src, sport, cid))"
    and sm: "state_machine (state flow, t, True) = Some a"
    and ca: "call_action a self (Some (kf, flow)) body src sport dst dport cid seq = Some (Inr self')"
  shows "effect\<^sup>*\<^sup>* self self'"
proof -
  note inv = state_machine_inv[OF sm]
  have tk: "tup flow = kf" using ok by (simp add: flow_ok_def)
  have simple: "effect\<^sup>*\<^sup>* self (put self kf (flow\<lparr> state := X \<rparr>))"
    if "X \<noteq> CS_HANDSHAKE" "X \<noteq> CS_PENDING_CLOSE \<or> pending flow \<noteq> []" for X
    using effect_set_state[OF fl ok, of X] that by auto
  have ack: "effect\<^sup>*\<^sup>* self (put self kf (flow\<lparr> seq1 := s, state := CS_SYN_ACKED \<rparr>))"
    if "state flow = CS_HANDSHAKE" for s
    using effect_ack[OF fl ok that, of s] by auto
  have cl: "effect\<^sup>*\<^sup>* self (flush_and_close self flow)"
    using effect_close[OF fl ok] by auto
  have seg: "effect\<^sup>*\<^sup>* self (put self1 kf (flow1\<lparr> state := CS_CONNECTED \<rparr>))"
    if "add_segment self flow d p s = Some (self1, flow1)" "d \<le> 1" for d p s self1 flow1
    using effect_segment[OF fl ok that, of CS_CONNECTED] by auto
  show ?thesis
  proof (cases a)
    case Act_init_syn
    with inv show ?thesis by simp
  next
    case Act_handshake_state
    with ca inv ack show ?thesis
      by (auto simp: call_action_def action_handshake_state_def split: if_splits)
  next
    case Act_handshake_syn
    with inv have t: "t = ST_SYN" by simp
    show ?thesis
    proof (cases "(src, sport, dst, dport) = tup4 flow")
      case True
      with ca Act_handshake_syn show ?thesis by (simp add: call_action_def action_handshake_syn_def)
    next
      case False
      with lk t tk have none: "flows self (src, sport, dst, dport, cid) = None"
        by (auto simp: tup4_def)
      have "effect self (flush_and_close self flow)" using fl ok by (rule effect_close)
      moreover have "flows (flush_and_close self flow) (src, sport, dst, dport, cid) = None"
        using none by (simp add: flush_and_close_props)
      from effect_create[OF this, of "seq + 1"]
      have "effect (flush_and_close self flow) self'"
        using ca Act_handshake_syn False by (simp add: call_action_def action_handshake_syn_def Let_def)
      ultimately show ?thesis by auto
    qed
  next
    case Act_syn_acked_fin
    with ca simple show ?thesis
      by (auto simp: call_action_def action_syn_acked_fin_def split: if_splits)
  next
    case Act_data
    with ca seg show ?thesis
      by (auto simp: call_action_def action_data_def split: if_splits option.splits)
  next
    case Act_connected_state
    with ca show ?thesis by (simp add: call_action_def action_connected_state_def)
  next
    case Act_connected_reset
    with ca cl show ?thesis
      by (auto simp: call_action_def action_connected_reset_def)
  next
    case Act_connected_fin
    with ca simple show ?thesis
      by (auto simp: call_action_def action_connected_fin_def split: if_splits)
  next
    case Act_initiator_sent_fin_state
    with ca simple show ?thesis
      by (auto simp: call_action_def action_initiator_sent_fin_state_def split: if_splits)
  next
    case Act_accepter_sent_fin_state
    with ca simple show ?thesis
      by (auto simp: call_action_def action_accepter_sent_fin_state_def split: if_splits)
  next
    case Act_initiator_fin_acked_fin
    with ca simple show ?thesis
      by (auto simp: call_action_def action_initiator_fin_acked_fin_def split: if_splits)
  next
    case Act_accepter_fin_acked_fin
    with ca simple show ?thesis
      by (auto simp: call_action_def action_accepter_fin_acked_fin_def split: if_splits)
  next
    case Act_both_initiator_acked_state
    with ca simple cl show ?thesis
      by (auto simp: call_action_def action_both_initiator_acked_state_def split: if_splits)
  next
    case Act_initiator_sent_fin_fin
    with ca simple show ?thesis
      by (auto simp: call_action_def action_initiator_sent_fin_fin_def split: if_splits)
  next
    case Act_accepter_sent_fin_fin
    with ca simple show ?thesis
      by (auto simp: call_action_def action_accepter_sent_fin_fin_def split: if_splits)
  next
    case Act_both_sent_fin_state
    with ca simple show ?thesis
      by (auto simp: call_action_def action_both_sent_fin_state_def split: if_splits)
  next
    case Act_both_accepter_acked_state
    with ca simple cl show ?thesis
      by (auto simp: call_action_def action_both_accepter_acked_state_def split: if_splits)
  next
    case Act_pending_close_data
    let ?d = "if (src, sport, dst, dport) = tup4 flow then 0 else 1 :: nat"
    from ca Act_pending_close_data obtain self1 flow1 where
      as: "add_segment self flow ?d body seq = Some (self1, flow1)"
      and res: "self' = (if length (pending flow1) = 0 then flush_and_close (put self1 kf flow1) flow1
                         else put self1 kf flow1)"
      by (auto simp: call_action_def action_pending_close_data_def Let_def split: option.splits if_splits)
    have d: "?d \<le> 1" by simp
    have st: "state flow1 = CS_PENDING_CLOSE"
      using add_segment_props(1)[OF as _ d] ok inv Act_pending_close_data
      by (simp add: seg_step_def flow_ok_def)
    show ?thesis
    proof (cases "pending flow1 = []")
      case True
      with res effect_segment_close[OF fl ok as d] show ?thesis by auto
    next
      case False
      have eq: "flow1\<lparr> state := CS_PENDING_CLOSE \<rparr> = flow1"
        unfolding st[symmetric] by simp
      from effect_segment[OF fl ok as d, of CS_PENDING_CLOSE] False res
      show ?thesis unfolding eq by auto
    qed
  next
    case Act_fin_data
    let ?d = "if (src, sport, dst, dport) = tup4 flow then 0 else 1 :: nat"
    from ca Act_fin_data obtain self1 flow1 where
      as: "add_segment self flow ?d body seq = Some (self1, flow1)"
      and res: "self' = put self1 kf flow1"
      by (auto simp: call_action_def action_fin_data_def Let_def split: option.splits if_splits)
    have d: "?d \<le> 1" by simp
    have st: "state flow1 = state flow"
      using add_segment_props(1)[OF as _ d] ok by (simp add: seg_step_def flow_ok_def)
    have "state flow \<in> set fin_states" using inv Act_fin_data by simp
    then have "state flow1 \<noteq> CS_HANDSHAKE" "state flow1 \<noteq> CS_PENDING_CLOSE"
      unfolding st by auto
    from effect_segment[OF fl ok as d, of "state flow1"] this res
    show ?thesis by auto
  next
    case Act_fin_syn
    with inv have t: "t = ST_SYN" by simp
    have 1: "effect self (flush_and_close self flow)" using fl ok by (rule effect_close)
    have none: "flows (flush_and_close self flow) (src, sport, dst, dport, cid) = None"
      using lk t tk by (auto simp: flush_and_close_props)
    from effect_create[OF this, of "seq + 1"]
    have "effect (flush_and_close self flow) self'"
      using ca Act_fin_syn none
      by (simp add: call_action_def action_fin_syn_def action_init_syn_def Let_def UtpFlow_init_def)
    with 1 show ?thesis by auto
  qed
qed

lemma dispatch_effect:
  assumes "tracer_ok self" "dispatch self src sport dst dport t cid seq body = Some (Inr self')"
  shows "effect\<^sup>*\<^sup>* self self'"
proof (cases "lookup (flows self) src sport dst dport t cid")
  case None
  show ?thesis
  proof (cases "state_machine (CS_INIT, t, False)")
    case N: None
    with None assms(2) show ?thesis by (simp add: dispatch_def)
  next
    case (Some a)
    then have a: "a = Act_init_syn" "t = ST_SYN"
      by (auto simp: state_machine_def fin_states_def split: if_splits)
    from lookup_NoneD[OF None] a have none: "flows self (src, sport, dst, dport, cid) = None" by simp
    from effect_create[OF this, of "seq + 1"] assms(2) None Some a none
    show ?thesis
      by (auto simp: dispatch_def call_action_def action_init_syn_def Let_def UtpFlow_init_def)
  qed
next
  case (Some kff)
  obtain kf flow where kff: "kff = (kf, flow)" by (cases kff)
  note lk = lookup_SomeD[OF Some[unfolded kff]]
  have ok: "flow_ok kf flow" using assms(1) lk(1) unfolding tracer_ok_def by blast
  show ?thesis
  proof (cases "state_machine (state flow, t, True)")
    case None
    with Some kff assms(2) show ?thesis by (simp add: dispatch_def)
  next
    case sm: (Some a)
    from assms(2) Some kff sm
    have "call_action a self (Some (kf, flow)) body src sport dst dport cid seq = Some (Inr self')"
      by (simp add: dispatch_def)
    from call_action_effect[OF ok lk(1) lk(2) sm this] show ?thesis .
  qed
qed

lemma trace_effect:
  assumes "tracer_ok self" "trace self pkt = Some (Inr self')"
  shows "effect\<^sup>*\<^sup>* self self'"
  using assms dispatch_effect[OF assms(1)]
  by (auto simp: trace_def split: sum.splits option.splits prod.splits)

lemma effects_tracer_ok: "effect\<^sup>*\<^sup>* self self' \<Longrightarrow> tracer_ok self \<Longrightarrow> tracer_ok self'"
  by (induction rule: rtranclp_induct) (auto intro: effect_tracer_ok)

lemma trace_all_effect:
  "tracer_ok self \<Longrightarrow> trace_all self pkts = Some (Inr self') \<Longrightarrow> effect\<^sup>*\<^sup>* self self'"
proof (induction pkts arbitrary: self)
  case Nil then show ?case by simp
next
  case (Cons pkt pkts)
  from Cons.prems(2) obtain s1 where s1: "trace self pkt = Some (Inr s1)" "trace_all s1 pkts = Some (Inr self')"
    by (auto split: option.splits sum.splits)
  from trace_effect[OF Cons.prems(1) s1(1)] have e: "effect\<^sup>*\<^sup>* self s1" .
  from effects_tracer_ok[OF e Cons.prems(1)] have "tracer_ok s1" .
  from Cons.IH[OF this s1(2)] e show ?case by auto
qed

lemma reachable_ok:
  "trace_all tracer_init pkts = Some (Inr self) \<Longrightarrow> tracer_ok self"
  using trace_all_effect[OF tracer_ok_init] effects_tracer_ok tracer_ok_init by blast

text \<open>
  No call diverges: the \<open>while\<close> loop of \<open>add_segment\<close> ends on every flow of a tracer
  between datagrams, so \<open>trace\<close> returns or raises on every datagram, and so does a run.
\<close>

lemma call_action_returns:
  assumes ok: "case fl of Some (kf, flow) \<Rightarrow> flow_ok kf flow | None \<Rightarrow> True"
  shows "\<exists>r. call_action a self fl payload src sport dst dport cid seq = Some r"
proof (cases fl)
  case None
  then show ?thesis
    by (cases a) (simp_all add: call_action_def action_init_syn_def action_connected_state_def Let_def)
next
  case (Some kfl)
  obtain kf flow where kfl: "kfl = (kf, flow)" by (cases kfl)
  from ok Some kfl have fo: "dirs_ok flow" "in_window flow" by (simp_all add: flow_ok_def)
  have as: "\<exists>res. add_segment self flow d payload seq = Some res" if "d \<le> 1" for d
    using add_segment_returns[OF fo that] .
  have as0: "\<exists>s f. add_segment self flow 0 payload seq = Some (s, f)" using as[of 0] by auto
  have as1: "\<exists>s f. add_segment self flow 1 payload seq = Some (s, f)" using as[of 1] by auto
  have asd: "\<exists>s f. add_segment self flow (if c then 0 else 1) payload seq = Some (s, f)" for c
    using as0 as1 by simp
  show ?thesis
  proof (cases a)
    case Act_data
    then show ?thesis using as0 as1 Some kfl
      by (auto simp: call_action_def action_data_def)
  next
    case Act_pending_close_data
    from asd[of "(src, sport, dst, dport) = tup4 flow"] show ?thesis using Some kfl Act_pending_close_data
      by (auto simp: call_action_def action_pending_close_data_def Let_def)
  next
    case Act_fin_data
    from asd[of "(src, sport, dst, dport) = tup4 flow"] show ?thesis using Some kfl Act_fin_data
      by (auto simp: call_action_def action_fin_data_def Let_def)
  qed (simp_all add: Some kfl call_action_def action_init_syn_def action_handshake_state_def
        action_handshake_syn_def action_syn_acked_fin_def action_connected_state_def
        action_connected_reset_def action_connected_fin_def action_initiator_sent_fin_state_def
        action_accepter_sent_fin_state_def action_initiator_fin_acked_fin_def
        action_accepter_fin_acked_fin_def action_both_initiator_acked_state_def
        action_initiator_sent_fin_fin_def action_accepter_sent_fin_fin_def
        action_both_sent_fin_state_def action_both_accepter_acked_state_def action_fin_syn_def Let_def)
qed

lemma trace_returns:
  assumes "tracer_ok self"
  shows "\<exists>r. trace self pkt = Some r"
proof (cases "parse_header (udp_payload pkt)")
  case (Inl e)
  then show ?thesis by (simp add: trace_def)
next
  case (Inr x)
  show ?thesis
  proof (cases x)
    case None
    with Inr show ?thesis by (simp add: trace_def)
  next
    case (Some h)
    obtain ptype cid seq body where h: "h = (ptype, cid, seq, body)" by (cases h)
    let ?fl = "lookup (flows self) (ip_src pkt) (udp_sport pkt) (ip_dst pkt) (udp_dport pkt) ptype cid"
    have ok: "case ?fl of Some (kf, flow) \<Rightarrow> flow_ok kf flow | None \<Rightarrow> True"
    proof (cases ?fl)
      case None then show ?thesis by simp
    next
      case (Some kfl)
      obtain kf flow where kfl: "kfl = (kf, flow)" by (cases kfl)
      from lookup_SomeD[OF Some[unfolded kfl]] assms have "flow_ok kf flow"
        unfolding tracer_ok_def by blast
      with Some kfl show ?thesis by simp
    qed
    show ?thesis
      using call_action_returns[OF ok] Inr Some h
      by (simp add: trace_def dispatch_def Let_def split: option.splits)
  qed
qed

lemma trace_all_returns: "tracer_ok self \<Longrightarrow> \<exists>r. trace_all self pkts = Some r"
proof (induction pkts arbitrary: self)
  case Nil
  then show ?case by simp
next
  case (Cons pkt pkts)
  from trace_returns[OF Cons.prems] obtain r where r: "trace self pkt = Some r" by blast
  show ?case
  proof (cases r)
    case (Inl e)
    with r show ?thesis by simp
  next
    case (Inr self')
    with r have "effect\<^sup>*\<^sup>* self self'" using trace_effect[OF Cons.prems] by blast
    then have "tracer_ok self'" using Cons.prems by (rule effects_tracer_ok)
    from Cons.IH[OF this] r Inr show ?thesis by simp
  qed
qed

lemma run_returns: "\<exists>r. trace_all tracer_init pkts = Some r"
  by (rule trace_all_returns[OF tracer_ok_init])

lemma state_machine_data:
  assumes "state_machine (s, ST_DATA, True) = Some a"
  shows "a = Act_data \<or> (a = Act_pending_close_data \<and> s = CS_PENDING_CLOSE) \<or> a = Act_fin_data"
  using assms by (auto simp: state_machine_def split: if_splits)

lemma flush_and_close_events:
  "events (flush_and_close self flow) = events self @ buffer_writes self flow @ [FlowClosed flow]"
  by (simp add: flush_and_close_def flush_buffer_def flow_closed_def get_filename_def buffer_writes_def
        Let_def split: option.split)

lemma state_machine_reset:
  "state_machine (s, ST_RESET, True) = (if s = CS_CONNECTED then Some Act_connected_reset else None)"
  by (simp add: state_machine_def fin_states_def)

lemma sink_no_closed: "list_all (is_sink_event t) evs \<Longrightarrow> FlowClosed f \<notin> set evs"
  by (induction evs) (auto simp: is_sink_event_def split: event.splits)

lemma writes_no_closed: "writes_only ws \<Longrightarrow> FlowClosed f \<notin> set ws"
  using sink_no_closed[OF writes_only_sink] .

lemma buffer_writes_no_closed: "FlowClosed f \<notin> set (buffer_writes self flow)"
  by (auto simp: buffer_writes_def split: option.splits)

lemma closes_empty_refl [simp]: "closes_empty self self"
  by (simp add: closes_empty_def)

lemma closes_empty_put [simp]: "closes_empty self (put self kf flow)"
  by (simp add: closes_empty_def put_def)

lemma closes_empty_close: "pending flow = [] \<Longrightarrow> closes_empty self (flush_and_close self flow)"
  by (auto simp: closes_empty_def flush_and_close_events buffer_writes_no_closed)

lemma closes_empty_segment:
  assumes "add_segment self flow d p s = Some (self1, flow1)" "dirs_ok flow" "d \<le> 1"
  shows "closes_empty self (put self1 kf flow2)"
    "pending flow1 = [] \<Longrightarrow> tup flow1 = kf \<Longrightarrow> closes_empty self (flush_and_close (put self1 kf flow1) flow1)"
proof -
  from add_segment_props(1)[OF assms] obtain evs where
    ev: "events self1 = events self @ evs" "list_all (is_sink_event (tup flow)) evs"
    unfolding seg_step_def by blast
  show "closes_empty self (put self1 kf flow2)"
    using ev sink_no_closed[OF ev(2)] by (auto simp: closes_empty_def put_def)
  show "closes_empty self (flush_and_close (put self1 kf flow1) flow1)" if "pending flow1 = []" "tup flow1 = kf"
    using ev sink_no_closed[OF ev(2)] that
    by (auto simp: closes_empty_def flush_and_close_put flush_and_close_events buffer_writes_no_closed)
qed

lemma call_action_closes_empty:
  assumes ok: "flow_ok kf flow"
    and ca: "call_action a self (Some (kf, flow)) body src sport dst dport cid seq = Some (Inr self')"
    and a: "a \<noteq> Act_init_syn" "a \<noteq> Act_handshake_syn" "a \<noteq> Act_connected_reset" "a \<noteq> Act_fin_syn"
  shows "closes_empty self self'"
proof -
  have dk: "dirs_ok flow" "tup flow = kf" using ok by (simp_all add: flow_ok_def)
  have seg: "closes_empty self (put self1 kf flow2)"
    if "add_segment self flow d p s = Some (self1, flow1)" "d \<le> 1" for d p s self1 flow1 flow2
    using closes_empty_segment(1)[OF that(1) dk(1) that(2)] .
  have segc: "closes_empty self (flush_and_close (put self1 kf flow1) flow1)"
    if "add_segment self flow d p s = Some (self1, flow1)" "d \<le> 1" "pending flow1 = []" for d p s self1 flow1
  proof -
    have "tup flow1 = kf" using add_segment_props(1)[OF that(1) dk(1) that(2)] dk(2) by (simp add: seg_step_def)
    with closes_empty_segment(2)[OF that(1) dk(1) that(2) that(3)] show ?thesis by simp
  qed
  show ?thesis
  proof (cases a)
    case Act_data
    with ca seg show ?thesis
      by (auto simp: call_action_def action_data_def split: if_splits option.splits)
  next
    case Act_pending_close_data
    with ca seg segc show ?thesis
      by (auto simp: call_action_def action_pending_close_data_def Let_def split: if_splits option.splits)
  next
    case Act_fin_data
    with ca seg show ?thesis
      by (auto simp: call_action_def action_fin_data_def split: if_splits option.splits)
  next
    case Act_both_initiator_acked_state
    with ca closes_empty_close[of flow self] show ?thesis
      by (auto simp: call_action_def action_both_initiator_acked_state_def split: if_splits)
  next
    case Act_both_accepter_acked_state
    with ca closes_empty_close[of flow self] show ?thesis
      by (auto simp: call_action_def action_both_accepter_acked_state_def split: if_splits)
  qed (use ca a in \<open>auto simp: call_action_def action_handshake_state_def action_syn_acked_fin_def
        action_connected_state_def action_connected_fin_def action_initiator_sent_fin_state_def
        action_accepter_sent_fin_state_def action_initiator_fin_acked_fin_def
        action_accepter_fin_acked_fin_def action_initiator_sent_fin_fin_def
        action_accepter_sent_fin_fin_def action_both_sent_fin_state_def split: if_splits\<close>)
qed




lemma delivered_closed [simp]: "delivered t d (xs @ [FlowClosed f]) = delivered t d xs"
  by simp




section \<open>Example runs\<close>

lemma run_ooo:
  "trace_all tracer_init
          [datagram peer_A peer_B 4 7 100 [], datagram peer_B peer_A 2 7 500 [],
           datagram peer_A peer_B 0 8 103 [3]]
   = Some (Inr \<lparr> flows = [(''A'', 1, ''B'', 2, 7) \<mapsto>
                     UtpFlow_init ''A'' 1 ''B'' 2 7 101
                       \<lparr> seq1 := 500, state := CS_CONNECTED, pending := [([3], 103, 0)] \<rparr>],
                  file_buffers = Map.empty, added = 1, closed = 0, segments = 0, data = 0,
                  events = [NewFlow (UtpFlow_init ''A'' 1 ''B'' 2 7 101)] \<rparr>)"
  by (simp add: eval_defs drain_eval)

lemma run_reset:
  "trace_all tracer_init
          [datagram peer_A peer_B 4 7 100 [], datagram peer_B peer_A 2 7 500 [],
           datagram peer_A peer_B 0 8 103 [3], datagram peer_B peer_A 3 7 501 []]
   = Some (Inr \<lparr> flows = Map.empty,
                  file_buffers = Map.empty, added = 1, closed = 1, segments = 0, data = 0,
                  events = [NewFlow (UtpFlow_init ''A'' 1 ''B'' 2 7 101),
                            FlowClosed (UtpFlow_init ''A'' 1 ''B'' 2 7 101
                       \<lparr> seq1 := 500, state := CS_CONNECTED, pending := [([3], 103, 0)] \<rparr>)] \<rparr>)"
  by (simp add: eval_defs drain_eval)

lemma run_seg:
  "trace_all tracer_init
          [datagram peer_A peer_B 4 7 100 [], datagram peer_B peer_A 2 7 500 [],
           datagram peer_A peer_B 0 8 101 [1]]
   = Some (Inr \<lparr> flows = [(''A'', 1, ''B'', 2, 7) \<mapsto>
                     UtpFlow_init ''A'' 1 ''B'' 2 7 101
                       \<lparr> seq0 := 102, seq1 := 500, state := CS_CONNECTED \<rparr>],
                  file_buffers = [((''A'', 1, ''B'', 2, 7), 0) \<mapsto> ([1], True)],
                  added = 1, closed = 0, segments = 1, data = 1,
                  events = [NewFlow (UtpFlow_init ''A'' 1 ''B'' 2 7 101),
                            NewSegment (''A'', 1, ''B'', 2, 7) 0 [1] 101] \<rparr>)"
  by (simp add: eval_defs drain_eval)

lemma tracer_after_seg:
  "tracer_after [datagram peer_A peer_B 4 7 100 [], datagram peer_B peer_A 2 7 500 [],
                 datagram peer_A peer_B 0 8 101 [1]]
   = \<lparr> flows = [(''A'', 1, ''B'', 2, 7) \<mapsto>
                     UtpFlow_init ''A'' 1 ''B'' 2 7 101
                       \<lparr> seq0 := 102, seq1 := 500, state := CS_CONNECTED \<rparr>],
        file_buffers = [((''A'', 1, ''B'', 2, 7), 0) \<mapsto> ([1], True)],
        added = 1, closed = 0, segments = 1, data = 1,
        events = [NewFlow (UtpFlow_init ''A'' 1 ''B'' 2 7 101),
                  NewSegment (''A'', 1, ''B'', 2, 7) 0 [1] 101] \<rparr>"
  unfolding tracer_after_def run_seg by simp

lemma tracer_after_ooo:
  "tracer_after [datagram peer_A peer_B 4 7 100 [], datagram peer_B peer_A 2 7 500 [],
                 datagram peer_A peer_B 0 8 103 [3]]
   = \<lparr> flows = [(''A'', 1, ''B'', 2, 7) \<mapsto>
                     UtpFlow_init ''A'' 1 ''B'' 2 7 101
                       \<lparr> seq1 := 500, state := CS_CONNECTED, pending := [([3], 103, 0)] \<rparr>],
        file_buffers = Map.empty, added = 1, closed = 0, segments = 0, data = 0,
        events = [NewFlow (UtpFlow_init ''A'' 1 ''B'' 2 7 101)] \<rparr>"
  unfolding tracer_after_def run_ooo by simp

lemma tracer_after_reset:
  "tracer_after [datagram peer_A peer_B 4 7 100 [], datagram peer_B peer_A 2 7 500 [],
                 datagram peer_A peer_B 0 8 103 [3], datagram peer_B peer_A 3 7 501 []]
   = \<lparr> flows = Map.empty,
        file_buffers = Map.empty, added = 1, closed = 1, segments = 0, data = 0,
        events = [NewFlow (UtpFlow_init ''A'' 1 ''B'' 2 7 101),
                  FlowClosed (UtpFlow_init ''A'' 1 ''B'' 2 7 101
                       \<lparr> seq1 := 500, state := CS_CONNECTED, pending := [([3], 103, 0)] \<rparr>)] \<rparr>"
  unfolding tracer_after_def run_reset by simp

lemma run_fin:
  "trace_all tracer_init
     [datagram peer_A peer_B 4 7 100 [], datagram peer_B peer_A 2 7 500 [],
      datagram peer_A peer_B 0 8 101 [1], datagram peer_A peer_B 1 8 102 [],
      datagram peer_B peer_A 1 7 501 [], datagram peer_A peer_B 2 8 103 []]
   = Some (Inr \<lparr> flows = [(''A'', 1, ''B'', 2, 7) \<mapsto>
                     UtpFlow_init ''A'' 1 ''B'' 2 7 101
                       \<lparr> seq0 := 102, seq1 := 500, state := CS_BOTH_SENT_FIN_INITIATOR_ACKED \<rparr>],
        file_buffers = [((''A'', 1, ''B'', 2, 7), 0) \<mapsto> ([1], True)],
        added = 1, closed = 0, segments = 1, data = 1,
        events = [NewFlow (UtpFlow_init ''A'' 1 ''B'' 2 7 101),
                  NewSegment (''A'', 1, ''B'', 2, 7) 0 [1] 101] \<rparr>)"
  by (simp add: eval_defs drain_eval)

lemma tracer_after_fin:
  "tracer_after
     [datagram peer_A peer_B 4 7 100 [], datagram peer_B peer_A 2 7 500 [],
      datagram peer_A peer_B 0 8 101 [1], datagram peer_A peer_B 1 8 102 [],
      datagram peer_B peer_A 1 7 501 [], datagram peer_A peer_B 2 8 103 []]
   = \<lparr> flows = [(''A'', 1, ''B'', 2, 7) \<mapsto>
                     UtpFlow_init ''A'' 1 ''B'' 2 7 101
                       \<lparr> seq0 := 102, seq1 := 500, state := CS_BOTH_SENT_FIN_INITIATOR_ACKED \<rparr>],
        file_buffers = [((''A'', 1, ''B'', 2, 7), 0) \<mapsto> ([1], True)],
        added = 1, closed = 0, segments = 1, data = 1,
        events = [NewFlow (UtpFlow_init ''A'' 1 ''B'' 2 7 101),
                  NewSegment (''A'', 1, ''B'', 2, 7) 0 [1] 101] \<rparr>"
  unfolding tracer_after_def run_fin by simp



section \<open>The claims\<close>



text \<open>
  C9. The claim: the extension loop only reads bytes of the payload below its length, and
  rejects a payload that is too short before any read past its end. The code tests
  \<open>len(payload) < 20 + ext_len + 1\<close> and then reads the bytes at \<open>20 + ext_len\<close> and at
  \<open>20 + ext_len + 1\<close>: the test covers the first read only. On a DATA packet of 21 bytes
  whose header announces an extension, the read of the length byte at offset 21 is past the
  end, and \<open>trace\<close> raises \<open>IndexError\<close>.
\<close>

theorem C9_extension_length_read_past_end:
  "length ((utp_header 0 8 101)[1 := 1] @ [0]) = 21
   \<and> ext_loop ((utp_header 0 8 101)[1 := 1] @ [0]) 1 0 = Inl IndexError
   \<and> trace tracer_init (datagram peer_A peer_B 0 8 101 [0]
        \<lparr> udp_payload := (utp_header 0 8 101)[1 := 1] @ [0] \<rparr>) = Some (Inl IndexError)"
  by (simp add: eval_defs)

text \<open>
  C2. The claim: the first lookup of a packet that is not a SYN uses the key \<open>connid - 1\<close>
  modulo \<open>2^16\<close>, so that a packet with the connection id 0 is attached to the flow created
  by a SYN with the connection id 65535. The code subtracts 1 from a Python integer: for the
  connection id 0 the key holds \<open>-1\<close>, which no flow has. After the SYN of A with the
  connection id 65535 and the STATE of B, a DATA packet of A with the connection id 0 finds no
  flow and is dropped.
\<close>

theorem C2_connid_zero_misses_flow_65535:
  "map_option state (flows (tracer_after [datagram peer_A peer_B 4 65535 100 [],
                                          datagram peer_B peer_A 2 65535 500 []])
                       (''A'', 1, ''B'', 2, 65535)) = Some CS_SYN_ACKED
   \<and> lookup (flows (tracer_after [datagram peer_A peer_B 4 65535 100 [],
                                  datagram peer_B peer_A 2 65535 500 []]))
        ''A'' 1 ''B'' 2 ST_DATA 0 = None
   \<and> trace (tracer_after [datagram peer_A peer_B 4 65535 100 [],
                          datagram peer_B peer_A 2 65535 500 []])
        (datagram peer_A peer_B 0 0 101 [7])
     = Some (Inr (tracer_after [datagram peer_A peer_B 4 65535 100 [],
                                datagram peer_B peer_A 2 65535 500 []]))"
  by (simp add: eval_defs tracer_after_def)

text \<open>
  C8. A parsed packet whose key \<open>(state, type, existing)\<close> has no entry in \<open>state_machine\<close>
  is dropped: \<open>trace\<close> returns, it raises nothing, and the tracer (the flow table with every
  field of every flow, the sink and the events) is as it was.
\<close>

theorem C8_unregistered_key_dropped:
  assumes "parse_header (udp_payload pkt) = Inr (Some (ptype, cid, seq, body))"
    and "state_machine
           (case lookup (flows self) (ip_src pkt) (udp_sport pkt) (ip_dst pkt) (udp_dport pkt) ptype cid of
              Some (kf, flow) \<Rightarrow> (state flow, ptype, True)
            | None \<Rightarrow> (CS_INIT, ptype, False)) = None"
  shows "trace self pkt = Some (Inr self)"
  using assms by (simp add: trace_def dispatch_def)

text \<open>A RESET of the initiator for a flow in the state \<open>CS_HANDSHAKE\<close>.\<close>

theorem C8_unregistered_key_dropped_witness:
  "trace (tracer_after [datagram peer_A peer_B 4 7 100 []]) (datagram peer_A peer_B 3 8 101 [])
     = Some (Inr (tracer_after [datagram peer_A peer_B 4 7 100 []]))
   \<and> flows (tracer_after [datagram peer_A peer_B 4 7 100 []]) (''A'', 1, ''B'', 2, 7) \<noteq> None"
  using C8_unregistered_key_dropped [of "datagram peer_A peer_B 3 8 101 []" ST_RESET 8 101 "[]"
          "tracer_after [datagram peer_A peer_B 4 7 100 []]"]
  by (simp add: eval_defs tracer_after_def)

text \<open>
  C4, as claimed: in the state \<open>CS_ACCEPTER_SENT_FIN\<close>, a STATE packet sent by the initiator
  moves the flow to \<open>CS_ACCEPTER_FIN_ACKED\<close>. It does not: after the SYN of A, the STATE of
  B and the FIN of B, the flow is in \<open>CS_ACCEPTER_SENT_FIN\<close>, and a STATE packet of A leaves
  the tracer as it is.
\<close>

theorem C4_counterexample:
  "map_option state (flows (tracer_after [datagram peer_A peer_B 4 7 100 [],
                                          datagram peer_B peer_A 2 7 500 [],
                                          datagram peer_B peer_A 1 7 501 []])
                       (''A'', 1, ''B'', 2, 7)) = Some CS_ACCEPTER_SENT_FIN
   \<and> trace (tracer_after [datagram peer_A peer_B 4 7 100 [],
                          datagram peer_B peer_A 2 7 500 [],
                          datagram peer_B peer_A 1 7 501 []])
        (datagram peer_A peer_B 2 8 101 [])
     = Some (Inr (tracer_after [datagram peer_A peer_B 4 7 100 [],
                                datagram peer_B peer_A 2 7 500 [],
                                datagram peer_B peer_A 1 7 501 []]))"
  by (simp add: eval_defs tracer_after_def)

text \<open>
  C4, amended: in the state \<open>CS_ACCEPTER_SENT_FIN\<close>, a STATE packet whose destination is
  the initiator of the flow and whose source is its accepter (\<open>(dst, dport, src, sport) =
  flow.tup[:-1]\<close>, line 228) moves the flow to \<open>CS_ACCEPTER_FIN_ACKED\<close>; every other STATE
  packet leaves the tracer as it is.
\<close>

theorem C4_accepter_sent_fin_state:
  assumes "parse_header (udp_payload pkt) = Inr (Some (ST_STATE, cid, seq, body))"
    and "lookup (flows self) (ip_src pkt) (udp_sport pkt) (ip_dst pkt) (udp_dport pkt) ST_STATE cid
           = Some (kf, flow)"
    and "state flow = CS_ACCEPTER_SENT_FIN"
  shows "trace self pkt =
           Some (Inr (if (ip_dst pkt, udp_dport pkt, ip_src pkt, udp_sport pkt) = tup4 flow
                      then put self kf (flow\<lparr> state := CS_ACCEPTER_FIN_ACKED \<rparr>)
                      else self))"
  using assms
  by (simp add: trace_def dispatch_def state_machine_def call_action_def action_accepter_sent_fin_state_def)

text \<open>The STATE packet of the accepter B after its FIN.\<close>

theorem C4_accepter_sent_fin_state_witness:
  "map_option state (flows (tracer_after [datagram peer_A peer_B 4 7 100 [],
                                          datagram peer_B peer_A 2 7 500 [],
                                          datagram peer_B peer_A 1 7 501 [],
                                          datagram peer_B peer_A 2 7 502 []])
                       (''A'', 1, ''B'', 2, 7)) = Some CS_ACCEPTER_FIN_ACKED"
proof -
  let ?self = "tracer_after [datagram peer_A peer_B 4 7 100 [], datagram peer_B peer_A 2 7 500 [],
                             datagram peer_B peer_A 1 7 501 []]"
  let ?flow = "UtpFlow_init ''A'' 1 ''B'' 2 7 101 \<lparr> seq1 := 500, state := CS_ACCEPTER_SENT_FIN \<rparr>"
  have "trace ?self (datagram peer_B peer_A 2 7 502 [])
          = Some (Inr (put ?self (''A'', 1, ''B'', 2, 7) (?flow\<lparr> state := CS_ACCEPTER_FIN_ACKED \<rparr>)))"
    using C4_accepter_sent_fin_state [of "datagram peer_B peer_A 2 7 502 []" 7 502 "[]" ?self
            "(''A'', 1, ''B'', 2, 7)" ?flow]
    by (simp add: eval_defs tracer_after_def)
  then show ?thesis
    by (simp add: eval_defs tracer_after_def)
qed


text \<open>
  C6. Between datagrams, the buffer \<open>pending\<close> of a flow in the table holds no packet whose
  sequence number is the one the flow expects next in the packet's direction (\<open>seq0\<close> for
  the direction 0, \<open>seq1\<close> otherwise).
\<close>

theorem C6_pending_never_holds_expected:
  assumes "trace_all tracer_init pkts = Some (Inr self)"
    and "flows self k = Some flow"
    and "(payload, seq, direction) \<in> set (pending flow)"
  shows "seq \<noteq> (if direction = 0 then seq0 flow else seq1 flow)"
proof -
  have "flow_ok k flow" using reachable_ok[OF assms(1)] assms(2) unfolding tracer_ok_def by blast
  then have "no_match flow" by (simp add: flow_ok_def)
  with assms(3) show ?thesis by (auto simp: no_match_def fseq_def list_all_iff)
qed

text \<open>A flow that holds the packet 103 while it expects 101.\<close>

theorem C6_pending_never_holds_expected_witness:
  "(103 :: serial) \<noteq> 101
   \<and> map_option pending (flows (tracer_after [datagram peer_A peer_B 4 7 100 [],
                                              datagram peer_B peer_A 2 7 500 [],
                                              datagram peer_A peer_B 0 8 103 [3]])
                            (''A'', 1, ''B'', 2, 7)) = Some [([3], 103, 0)]"
  using C6_pending_never_holds_expected [of
      "[datagram peer_A peer_B 4 7 100 [], datagram peer_B peer_A 2 7 500 [],
        datagram peer_A peer_B 0 8 103 [3]]"
      "tracer_after [datagram peer_A peer_B 4 7 100 [], datagram peer_B peer_A 2 7 500 [],
                     datagram peer_A peer_B 0 8 103 [3]]"
      "(''A'', 1, ''B'', 2, 7)"
      "UtpFlow_init ''A'' 1 ''B'' 2 7 101 \<lparr> seq1 := 500, state := CS_CONNECTED, pending := [([3], 103, 0)] \<rparr>"
      "[3]" 103 0]
  by (simp add: tracer_after_def run_ooo UtpFlow_init_def del: trace_all.simps)

text \<open>
  C10. After every processed datagram of a run, the number of flows in the table is the
  number of \<open>new_flow\<close> calls minus the number of \<open>flow_closed\<close> calls so far, and the
  counters \<open>added\<close> and \<open>closed\<close> of the sink are these two numbers.
\<close>

theorem C10_table_size_is_created_minus_closed:
  assumes "trace_all tracer_init pkts = Some (Inr self)"
  shows "card (dom (flows self)) = count_new_flow (events self) - count_flow_closed (events self)
         \<and> count_flow_closed (events self) \<le> count_new_flow (events self)
         \<and> added self = count_new_flow (events self)
         \<and> closed self = count_flow_closed (events self)"
  using reachable_ok[OF assms] unfolding tracer_ok_def by linarith

text \<open>A flow created by a SYN and closed by a RESET.\<close>

theorem C10_table_size_is_created_minus_closed_witness:
  "card (dom (flows (tracer_after [datagram peer_A peer_B 4 7 100 [], datagram peer_B peer_A 2 7 500 [],
           datagram peer_A peer_B 0 8 103 [3], datagram peer_B peer_A 3 7 501 []]))) = 0
   \<and> count_new_flow (events (tracer_after [datagram peer_A peer_B 4 7 100 [], datagram peer_B peer_A 2 7 500 [],
           datagram peer_A peer_B 0 8 103 [3], datagram peer_B peer_A 3 7 501 []])) = 1
   \<and> count_flow_closed (events (tracer_after [datagram peer_A peer_B 4 7 100 [], datagram peer_B peer_A 2 7 500 [],
           datagram peer_A peer_B 0 8 103 [3], datagram peer_B peer_A 3 7 501 []])) = 1"
  using C10_table_size_is_created_minus_closed [of
      "[datagram peer_A peer_B 4 7 100 [], datagram peer_B peer_A 2 7 500 [],
        datagram peer_A peer_B 0 8 103 [3], datagram peer_B peer_A 3 7 501 []]"
      "tracer_after [datagram peer_A peer_B 4 7 100 [], datagram peer_B peer_A 2 7 500 [],
        datagram peer_A peer_B 0 8 103 [3], datagram peer_B peer_A 3 7 501 []]"]
  by (simp add: tracer_after_def run_reset del: trace_all.simps)

text \<open>
  C5. A DATA packet for a flow of the table whose sequence number is less (in serial
  arithmetic) than the number the flow expects next in the packet's direction is discarded:
  \<open>trace\<close> returns, no event is emitted (no \<open>new_segment\<close> call in particular), the
  counters of the sink stay, and the buffer and the expected numbers of the flow stay.
\<close>

theorem C5_duplicate_data_discarded:
  assumes reach: "trace_all tracer_init pkts = Some (Inr self)"
    and parse: "parse_header (udp_payload pkt) = Inr (Some (ST_DATA, cid, seq, body))"
    and look: "lookup (flows self) (ip_src pkt) (udp_sport pkt) (ip_dst pkt) (udp_dport pkt) ST_DATA cid
                 = Some (kf, flow)"
    and dup: "serial_lt seq (fseq flow (if (ip_src pkt, udp_sport pkt, ip_dst pkt, udp_dport pkt) = tup4 flow
                                        then 0 else 1))"
  shows "\<exists>self' flow'. trace self pkt = Some (Inr self')
           \<and> events self' = events self \<and> segments self' = segments self \<and> data self' = data self
           \<and> flows self' kf = Some flow'
           \<and> pending flow' = pending flow \<and> seq0 flow' = seq0 flow \<and> seq1 flow' = seq1 flow"
proof -
  let ?src = "(ip_src pkt, udp_sport pkt, ip_dst pkt, udp_dport pkt)"
  let ?d = "if ?src = tup4 flow then 0 else 1 :: nat"
  note lk = lookup_SomeD[OF look]
  have ok: "flow_ok kf flow" using reachable_ok[OF reach] lk(1) unfolding tracer_ok_def by blast
  then have nm: "no_match flow" and tk: "tup flow = kf"
    and pc: "state flow = CS_PENDING_CLOSE \<longrightarrow> pending flow \<noteq> []"
    by (simp_all add: flow_ok_def)
  have as: "add_segment self flow ?d body seq = Some (self, flow)"
    using add_segment_duplicate[OF nm dup] .
  have d1: "?d = 1" if "?src \<noteq> tup4 flow" using that by simp
  have d0: "?d = 0" if "?src = tup4 flow" using that by simp
  have tr: "trace self pkt = (case state_machine (state flow, ST_DATA, True) of
               Some a \<Rightarrow> call_action a self (Some (kf, flow)) body (ip_src pkt) (udp_sport pkt)
                          (ip_dst pkt) (udp_dport pkt) cid seq
             | None \<Rightarrow> Some (Inr self))"
    using parse look by (simp add: trace_def dispatch_def)
  show ?thesis
  proof (cases "state_machine (state flow, ST_DATA, True)")
    case None
    with tr lk(1) show ?thesis by simp
  next
    case (Some a)
    from state_machine_data[OF Some]
    consider "a = Act_data" | "a = Act_pending_close_data" "state flow = CS_PENDING_CLOSE" | "a = Act_fin_data"
      by blast
    then show ?thesis
    proof cases
      case 1
      show ?thesis
      proof (cases "?src = tup4 flow")
        case True
        with as have "add_segment self flow 0 body seq = Some (self, flow)" by simp
        with tr Some 1 True show ?thesis
          by (simp add: call_action_def action_data_def put_def)
      next
        case False
        with as have "add_segment self flow 1 body seq = Some (self, flow)" by simp
        with tr Some 1 False lk(1) show ?thesis
          by (simp add: call_action_def action_data_def put_def)
      qed
    next
      case 2
      with pc have "pending flow \<noteq> []" by simp
      with tr Some 2 as lk(1) show ?thesis
        by (simp add: call_action_def action_pending_close_data_def put_def Let_def fun_upd_idem)
    next
      case 3
      with tr Some as lk(1) show ?thesis
        by (simp add: call_action_def action_fin_data_def put_def fun_upd_idem)
    qed
  qed
qed

text \<open>
  The segment 101 of the initiator arrives a second time after its delivery.
\<close>

theorem C5_duplicate_data_discarded_witness:
  "serial_lt 101 102
   \<and> (\<exists>self'. trace (tracer_after [datagram peer_A peer_B 4 7 100 [], datagram peer_B peer_A 2 7 500 [],
                                   datagram peer_A peer_B 0 8 101 [1]])
                 (datagram peer_A peer_B 0 8 101 [1]) = Some (Inr self')
        \<and> events self' = [NewFlow (UtpFlow_init ''A'' 1 ''B'' 2 7 101),
                          NewSegment (''A'', 1, ''B'', 2, 7) 0 [1] 101])"
proof -
  let ?pkts = "[datagram peer_A peer_B 4 7 100 [], datagram peer_B peer_A 2 7 500 [],
                datagram peer_A peer_B 0 8 101 [1]]"
  let ?flow = "UtpFlow_init ''A'' 1 ''B'' 2 7 101 \<lparr> seq0 := 102, seq1 := 500, state := CS_CONNECTED \<rparr>"
  let ?pkt = "datagram peer_A peer_B 0 8 101 [1]"
  have lt: "serial_lt 101 102" by (simp add: serial_lt_def)
  have ta: "trace_all tracer_init ?pkts = Some (Inr (tracer_after ?pkts))"
    unfolding tracer_after_seg by (rule run_seg)
  have ev: "events (tracer_after ?pkts) = [NewFlow (UtpFlow_init ''A'' 1 ''B'' 2 7 101),
                          NewSegment (''A'', 1, ''B'', 2, 7) 0 [1] 101]"
    unfolding tracer_after_seg by simp
  have ph: "parse_header (udp_payload ?pkt) = Inr (Some (ST_DATA, 8, 101, [1]))"
    by (simp add: eval_defs)
  have lk: "lookup (flows (tracer_after ?pkts)) (ip_src ?pkt) (udp_sport ?pkt) (ip_dst ?pkt) (udp_dport ?pkt)
              ST_DATA 8 = Some ((''A'', 1, ''B'', 2, 7), ?flow)"
    unfolding tracer_after_seg by (simp add: lookup_def datagram_def peer_A_def peer_B_def)
  have du: "serial_lt 101 (fseq ?flow (if (ip_src ?pkt, udp_sport ?pkt, ip_dst ?pkt, udp_dport ?pkt) = tup4 ?flow
                                        then 0 else 1))"
    using lt by (simp add: fseq_def tup4_def UtpFlow_init_def datagram_def peer_A_def peer_B_def)
  from C5_duplicate_data_discarded [OF ta ph lk du] ev lt show ?thesis by auto
qed

text \<open>
  C3, as claimed: a RESET that matches an existing flow destroys it in every state. It does
  not: \<open>state_machine\<close> has a handler for RESET under the state \<open>CS_CONNECTED\<close> only. A
  RESET of B for the flow that the SYN of A created, in the state \<open>CS_HANDSHAKE\<close>, finds the
  flow, leaves the tracer as it is and emits nothing.
\<close>

theorem C3_counterexample:
  "map_option state (flows (tracer_after [datagram peer_A peer_B 4 7 100 []]) (''A'', 1, ''B'', 2, 7))
     = Some CS_HANDSHAKE
   \<and> lookup (flows (tracer_after [datagram peer_A peer_B 4 7 100 []])) ''B'' 2 ''A'' 1 ST_RESET 7
     = Some ((''A'', 1, ''B'', 2, 7), UtpFlow_init ''A'' 1 ''B'' 2 7 101)
   \<and> trace (tracer_after [datagram peer_A peer_B 4 7 100 []]) (datagram peer_B peer_A 3 7 500 [])
     = Some (Inr (tracer_after [datagram peer_A peer_B 4 7 100 []]))
   \<and> events (tracer_after [datagram peer_A peer_B 4 7 100 []]) = [NewFlow (UtpFlow_init ''A'' 1 ''B'' 2 7 101)]"
  by (simp add: eval_defs tracer_after_def)

text \<open>
  C3, amended: during a run, a RESET that matches a flow in the state \<open>CS_CONNECTED\<close>
  destroys it: the buffers of its two streams are written out and dropped, \<open>flow_closed\<close>
  is called last, and the flow is removed from the table. A RESET that matches a flow in any
  other state leaves the tracer as it is.
\<close>

theorem C3_reset_closes_connected_flow:
  assumes reach: "trace_all tracer_init pkts = Some (Inr self)"
    and parse: "parse_header (udp_payload pkt) = Inr (Some (ST_RESET, cid, seq, body))"
    and look: "lookup (flows self) (ip_src pkt) (udp_sport pkt) (ip_dst pkt) (udp_dport pkt) ST_RESET cid
                 = Some (kf, flow)"
  shows "trace self pkt = Some (Inr (if state flow = CS_CONNECTED then flush_and_close self flow else self))
         \<and> flows (flush_and_close self flow) = (flows self)(kf := None)
         \<and> file_buffers (flush_and_close self flow) = (file_buffers self)((kf, 0) := None, (kf, 1) := None)
         \<and> events (flush_and_close self flow) = events self @ buffer_writes self flow @ [FlowClosed flow]"
proof -
  note lk = lookup_SomeD[OF look]
  have "flow_ok kf flow" using reachable_ok[OF reach] lk(1) unfolding tracer_ok_def by blast
  then have tk: "tup flow = kf" by (simp add: flow_ok_def)
  have "trace self pkt = Some (Inr (if state flow = CS_CONNECTED then flush_and_close self flow else self))"
    using parse look
    by (simp add: trace_def dispatch_def state_machine_reset call_action_def action_connected_reset_def)
  then show ?thesis
    using tk by (simp add: flush_and_close_props flush_and_close_events)
qed

text \<open>
  A RESET of B for a connected flow that holds one delivered segment in its buffer.
\<close>

theorem C3_reset_closes_connected_flow_witness:
  "\<exists>self'. trace (tracer_after [datagram peer_A peer_B 4 7 100 [], datagram peer_B peer_A 2 7 500 [],
                               datagram peer_A peer_B 0 8 101 [1]])
             (datagram peer_B peer_A 3 7 501 []) = Some (Inr self')
     \<and> flows self' (''A'', 1, ''B'', 2, 7) = None
     \<and> file_buffers self' ((''A'', 1, ''B'', 2, 7), 0) = None
     \<and> events self' =
         [NewFlow (UtpFlow_init ''A'' 1 ''B'' 2 7 101),
          NewSegment (''A'', 1, ''B'', 2, 7) 0 [1] 101,
          FileWrite ((''A'', 1, ''B'', 2, 7), 0) True [1],
          FlowClosed (UtpFlow_init ''A'' 1 ''B'' 2 7 101 \<lparr> seq0 := 102, seq1 := 500, state := CS_CONNECTED \<rparr>)]"
proof -
  let ?pkts = "[datagram peer_A peer_B 4 7 100 [], datagram peer_B peer_A 2 7 500 [],
                datagram peer_A peer_B 0 8 101 [1]]"
  let ?flow = "UtpFlow_init ''A'' 1 ''B'' 2 7 101 \<lparr> seq0 := 102, seq1 := 500, state := CS_CONNECTED \<rparr>"
  let ?pkt = "datagram peer_B peer_A 3 7 501 []"
  have ta: "trace_all tracer_init ?pkts = Some (Inr (tracer_after ?pkts))"
    unfolding tracer_after_seg by (rule run_seg)
  have ph: "parse_header (udp_payload ?pkt) = Inr (Some (ST_RESET, 7, 501, []))"
    by (simp add: eval_defs)
  have lk: "lookup (flows (tracer_after ?pkts)) (ip_src ?pkt) (udp_sport ?pkt) (ip_dst ?pkt) (udp_dport ?pkt)
              ST_RESET 7 = Some ((''A'', 1, ''B'', 2, 7), ?flow)"
    unfolding tracer_after_seg by (simp add: lookup_def datagram_def peer_A_def peer_B_def)
  have fb: "buffer_writes (tracer_after ?pkts) ?flow = [FileWrite ((''A'', 1, ''B'', 2, 7), 0) True [1]]"
    unfolding tracer_after_seg by (simp add: buffer_writes_def UtpFlow_init_def)
  have ev: "events (tracer_after ?pkts) = [NewFlow (UtpFlow_init ''A'' 1 ''B'' 2 7 101),
          NewSegment (''A'', 1, ''B'', 2, 7) 0 [1] 101]"
    unfolding tracer_after_seg by simp
  from C3_reset_closes_connected_flow [OF ta ph lk] fb ev show ?thesis
    by (simp add: UtpFlow_init_def)
qed

text \<open>
  C7, as claimed: the buffer \<open>pending\<close> is empty when a flow first enters
  \<open>CS_CONNECTED\<close> and when it is closed, on every path. It is not: a first DATA packet that
  is ahead of the expected number (103 for 101) is buffered as the flow enters
  \<open>CS_CONNECTED\<close>, and a RESET then closes the flow with that packet still in its buffer.
\<close>

theorem C7_counterexample:
  "map_option state (flows (tracer_after [datagram peer_A peer_B 4 7 100 [],
                                          datagram peer_B peer_A 2 7 500 []])
                       (''A'', 1, ''B'', 2, 7)) = Some CS_SYN_ACKED
   \<and> map_option (\<lambda>f. (state f, pending f))
        (flows (tracer_after [datagram peer_A peer_B 4 7 100 [], datagram peer_B peer_A 2 7 500 [],
                              datagram peer_A peer_B 0 8 103 [3]])
               (''A'', 1, ''B'', 2, 7)) = Some (CS_CONNECTED, [([3], 103, 0)])
   \<and> map (\<lambda>e. case e of FlowClosed f \<Rightarrow> Some (pending f) | _ \<Rightarrow> None)
        (events (tracer_after [datagram peer_A peer_B 4 7 100 [], datagram peer_B peer_A 2 7 500 [],
                               datagram peer_A peer_B 0 8 103 [3], datagram peer_B peer_A 3 7 501 []]))
     = [None, Some [([3], 103, 0)]]"
proof -
  have "map_option state (flows (tracer_after [datagram peer_A peer_B 4 7 100 [],
                                          datagram peer_B peer_A 2 7 500 []])
                       (''A'', 1, ''B'', 2, 7)) = Some CS_SYN_ACKED"
    by (simp add: eval_defs tracer_after_def)
  then show ?thesis
    unfolding tracer_after_ooo tracer_after_reset by (simp add: UtpFlow_init_def)
qed

text \<open>
  C7, amended: during a run, a flow that is closed while a packet other than a RESET or a
  SYN is processed (the last STATE of the FIN exchange, or the DATA packet that empties the
  buffer in \<open>CS_PENDING_CLOSE\<close>) has an empty buffer \<open>pending\<close> at the call of
  \<open>flow_closed\<close>. Nothing is said of the buffer when a flow enters \<open>CS_CONNECTED\<close>, or
  when a RESET or a SYN closes it.
\<close>

theorem C7_pending_empty_at_close_without_reset_or_syn:
  assumes reach: "trace_all tracer_init pkts = Some (Inr self)"
    and parse: "parse_header (udp_payload pkt) = Inr (Some (ptype, cid, seq, body))"
    and ty: "ptype \<noteq> ST_RESET" "ptype \<noteq> ST_SYN"
    and tr: "trace self pkt = Some (Inr self')"
    and cl: "FlowClosed flow \<in> set (drop (length (events self)) (events self'))"
  shows "pending flow = []"
proof -
  have "closes_empty self self'"
  proof (cases "lookup (flows self) (ip_src pkt) (udp_sport pkt) (ip_dst pkt) (udp_dport pkt) ptype cid")
    case None
    have "state_machine (CS_INIT, ptype, False) = None"
      using ty(2) by (simp add: state_machine_def fin_states_def)
    with None tr parse show ?thesis by (simp add: trace_def dispatch_def)
  next
    case (Some kff)
    obtain kf f where kff: "kff = (kf, f)" by (cases kff)
    note lk = lookup_SomeD[OF Some[unfolded kff]]
    have ok: "flow_ok kf f" using reachable_ok[OF reach] lk(1) unfolding tracer_ok_def by blast
    show ?thesis
    proof (cases "state_machine (state f, ptype, True)")
      case None
      with Some kff tr parse show ?thesis by (simp add: trace_def dispatch_def)
    next
      case sm: (Some a)
      from state_machine_inv[OF sm] ty
      have a: "a \<noteq> Act_init_syn" "a \<noteq> Act_handshake_syn" "a \<noteq> Act_connected_reset" "a \<noteq> Act_fin_syn"
        by auto
      from tr parse Some kff sm
      have "call_action a self (Some (kf, f)) body (ip_src pkt) (udp_sport pkt) (ip_dst pkt) (udp_dport pkt)
              cid seq = Some (Inr self')"
        by (simp add: trace_def dispatch_def)
      from call_action_closes_empty[OF ok this a] show ?thesis .
    qed
  qed
  with cl show ?thesis by (auto simp: closes_empty_def)
qed

text \<open>
  Both sides send FIN, the initiator acknowledges, and the STATE of the accepter closes
  the flow.
\<close>

theorem C7_pending_empty_at_close_without_reset_or_syn_witness:
  "\<exists>self'. trace (tracer_after
               [datagram peer_A peer_B 4 7 100 [], datagram peer_B peer_A 2 7 500 [],
                datagram peer_A peer_B 0 8 101 [1], datagram peer_A peer_B 1 8 102 [],
                datagram peer_B peer_A 1 7 501 [], datagram peer_A peer_B 2 8 103 []])
             (datagram peer_B peer_A 2 7 502 []) = Some (Inr self')
     \<and> last (events self') = FlowClosed (UtpFlow_init ''A'' 1 ''B'' 2 7 101
                       \<lparr> seq0 := 102, seq1 := 500, state := CS_BOTH_SENT_FIN_INITIATOR_ACKED \<rparr>)
     \<and> pending (UtpFlow_init ''A'' 1 ''B'' 2 7 101
                       \<lparr> seq0 := 102, seq1 := 500, state := CS_BOTH_SENT_FIN_INITIATOR_ACKED \<rparr>) = []"
proof -
  let ?pkts = "[datagram peer_A peer_B 4 7 100 [], datagram peer_B peer_A 2 7 500 [],
                datagram peer_A peer_B 0 8 101 [1], datagram peer_A peer_B 1 8 102 [],
                datagram peer_B peer_A 1 7 501 [], datagram peer_A peer_B 2 8 103 []]"
  let ?flow = "UtpFlow_init ''A'' 1 ''B'' 2 7 101
                       \<lparr> seq0 := 102, seq1 := 500, state := CS_BOTH_SENT_FIN_INITIATOR_ACKED \<rparr>"
  let ?pkt = "datagram peer_B peer_A 2 7 502 []"
  let ?self' = "\<lparr> flows = Map.empty, file_buffers = Map.empty,
        added = 1, closed = 1, segments = 1, data = 1,
        events = [NewFlow (UtpFlow_init ''A'' 1 ''B'' 2 7 101),
                  NewSegment (''A'', 1, ''B'', 2, 7) 0 [1] 101,
                  FileWrite ((''A'', 1, ''B'', 2, 7), 0) True [1],
                  FlowClosed ?flow] \<rparr>"
  have ta: "trace_all tracer_init ?pkts = Some (Inr (tracer_after ?pkts))"
    unfolding tracer_after_fin by (rule run_fin)
  have ph: "parse_header (udp_payload ?pkt) = Inr (Some (ST_STATE, 7, 502, []))"
    by (simp add: eval_defs)
  have tr: "trace (tracer_after ?pkts) ?pkt = Some (Inr ?self')"
    unfolding tracer_after_fin by (simp add: eval_defs)
  have cl: "FlowClosed ?flow \<in> set (drop (length (events (tracer_after ?pkts))) (events ?self'))"
    unfolding tracer_after_fin by simp
  from C7_pending_empty_at_close_without_reset_or_syn [OF ta ph _ _ tr cl] tr
  show ?thesis by simp
qed

end
